theory Spec2Isabelle
  imports Complex_Main "HOL-Library.Word" "HOL-Library.Char_ord" "HOL-Library.List_Lexorder"
    "HOL-Library.Sublist"
begin

section \<open>Text and regular expressions (tools/arm64.inspect.py)\<close>

text \<open>
  A Python \<open>str\<close> is a list of code points. It is modelled as a \<open>string\<close>; the
  character with code \<open>n\<close> stands for the code point \<open>n\<close>, so the model covers text
  whose code points are below 256 (the disassembler's output is ASCII).

  \<open>\s\<close> in a \<open>str\<close> pattern is Python's Unicode white space: below 256 these are the
  code points 9 to 13, 28 to 32, 0x85 and 0xA0.
\<close>

definition is_space :: "char \<Rightarrow> bool" where
  "is_space x = ((CHR 0x09 \<le> x \<and> x \<le> CHR 0x0D) \<or> (CHR 0x1C \<le> x \<and> x \<le> CHR 0x20)
                  \<or> x = CHR 0x85 \<or> x = CHR 0xA0)"

text \<open>An item of a bracket expression: one character, or a range \<open>lo-hi\<close>.\<close>

datatype citem = One char | Rng char char

fun in_item :: "citem \<Rightarrow> char \<Rightarrow> bool" where
  "in_item (One c) x = (x = c)"
| "in_item (Rng lo hi) x = (lo \<le> x \<and> x \<le> hi)"

fun in_items :: "citem list \<Rightarrow> char \<Rightarrow> bool" where
  "in_items [] x = False"
| "in_items (i # is) x = (in_item i x \<or> in_items is x)"

text \<open>
  The one-character matchers the patterns use: \<open>\s\<close>, \<open>.\<close> (any character but a
  newline, no DOTALL flag is given) and a bracket expression \<open>[...]\<close>.
\<close>

datatype cclass = Ws | Dot | Cls "citem list"

fun cc :: "cclass \<Rightarrow> char \<Rightarrow> bool" where
  "cc Ws x = is_space x"
| "cc Dot x = (x \<noteq> CHR 0x0A)"
| "cc (Cls is) x = in_items is x"

text \<open>
  The regular expressions of the source, as syntax trees. \<open>Str w\<close> is a run of literal
  characters, \<open>C c\<close> one character of a class, \<open>Plus c\<close> and \<open>Star c\<close> the repetitions
  \<open>c+\<close> and \<open>c*\<close> (the source repeats single-character classes only), \<open>Seq\<close> is
  concatenation and \<open>Alt\<close> is \<open>|\<close>. Groups \<open>( )\<close> only delimit the alternatives: no
  pattern refers back to a group.
\<close>

datatype re = Str string | C cclass | Plus cclass | Star cclass | Seq re re | Alt re re

fun seqs :: "re list \<Rightarrow> re" where
  "seqs [] = Str []"
| "seqs [r] = r"
| "seqs (r # rs) = Seq r (seqs rs)"

fun alts :: "re list \<Rightarrow> re" where
  "alts [] = Str []"
| "alts [r] = r"
| "alts (r # rs) = Alt r (alts rs)"

text \<open>\<open>strip w s\<close> removes the literal \<open>w\<close> from the front of \<open>s\<close>.\<close>

fun strip :: "string \<Rightarrow> string \<Rightarrow> string option" where
  "strip [] s = Some s"
| "strip (c # w) [] = None"
| "strip (c # w) (x # s) = (if x = c then strip w s else None)"

text \<open>
  \<open>star_k p s k\<close>: after zero or more characters of \<open>s\<close> that satisfy \<open>p\<close>, the rest of
  the pattern (the continuation \<open>k\<close>) matches. Python tries the longest repetition first
  and backtracks; whether a match exists does not depend on the order.
\<close>

fun star_k :: "(char \<Rightarrow> bool) \<Rightarrow> string \<Rightarrow> (string \<Rightarrow> bool) \<Rightarrow> bool" where
  "star_k p [] k = k []"
| "star_k p (x # xs) k = (k (x # xs) \<or> (p x \<and> star_k p xs k))"

text \<open>
  \<open>m r s k\<close>: \<open>r\<close> matches at the front of \<open>s\<close> and \<open>k\<close> accepts what is left.
\<close>

fun m :: "re \<Rightarrow> string \<Rightarrow> (string \<Rightarrow> bool) \<Rightarrow> bool" where
  "m (Str w) s k = (case strip w s of None \<Rightarrow> False | Some t \<Rightarrow> k t)"
| "m (C c) s k = (case s of [] \<Rightarrow> False | x # xs \<Rightarrow> cc c x \<and> k xs)"
| "m (Plus c) s k = (case s of [] \<Rightarrow> False | x # xs \<Rightarrow> cc c x \<and> star_k (cc c) xs k)"
| "m (Star c) s k = star_k (cc c) s k"
| "m (Seq a b) s k = m a s (\<lambda>t. m b t k)"
| "m (Alt a b) s k = (m a s k \<or> m b s k)"

text \<open>\<open>re.match(r, s)\<close> is not \<open>None\<close>: \<open>r\<close> matches at index 0.\<close>

definition re_match :: "re \<Rightarrow> string \<Rightarrow> bool" where
  "re_match r s = m r s (\<lambda>t. True)"

text \<open>\<open>re.search(r, s)\<close> is not \<open>None\<close>: \<open>r\<close> matches at some index of \<open>s\<close>.\<close>

fun re_search :: "re \<Rightarrow> string \<Rightarrow> bool" where
  "re_search r [] = re_match r []"
| "re_search r (x # xs) = (re_match r (x # xs) \<or> re_search r xs)"

section \<open>The pattern registry\<close>

definition d234 :: cclass where
  "d234 = Cls [One CHR ''2'', One CHR ''3'', One CHR ''4'']"

definition hsu :: cclass where
  "hsu = Cls [One CHR ''h'', One CHR ''s'', One CHR ''u'']"

definition digit :: cclass where
  "digit = Cls [Rng CHR ''0'' CHR ''9'']"

definition hexdigit :: cclass where
  "hexdigit = Cls [Rng CHR ''0'' CHR ''9'', Rng CHR ''a'' CHR ''f'']"

text \<open>\<open>w\s+z\<close>, the shape of many alternatives.\<close>

definition sp :: "string \<Rightarrow> string \<Rightarrow> re" where
  "sp w z = seqs [Str w, Plus Ws, Str z]"

text \<open>\<open>INSPECT_ARRAY\<close>: a dict literal, here in its insertion order.\<close>

definition INSPECT_ARRAY :: "(string \<times> re) list" where
  "INSPECT_ARRAY = [
    (''asimd'', seqs [C Ws, alts [Str ''fadd'', Str ''fmul'', Str ''ld1'', Str ''st1'',
        Str ''saddl'', Str ''uaddl'', Str ''sqadd'', Str ''movi'', sp ''add'' ''v'',
        sp ''sub'' ''v'', sp ''mul'' ''v'', Seq (Str ''ld'') (C d234),
        Seq (Str ''st'') (C d234), Str ''umull'', Str ''smull'']]),
    (''asimdhp'', seqs [C Ws, alts [sp ''fadd'' ''h'', sp ''fmul'' ''h'', sp ''fmla'' ''h'',
        sp ''fabs'' ''h'', sp ''fneg'' ''h'', sp ''fsqrt'' ''h'']]),
    (''asimdfhm'', seqs [C Ws, alts [Str ''fmlal'', Str ''fmlsl'']]),
    (''asimddp'', seqs [C Ws, alts [Str ''sdot'', Str ''udot'']]),
    (''asimdrdm'', seqs [C Ws, alts [Str ''sqrdmlah'', Str ''sqrdmlsh'']]),
    (''i8mm'', seqs [C Ws, alts [Str ''smmla'', Str ''ummla'', Str ''usmmla'']]),
    (''bf16'', seqs [C Ws, alts [Str ''bfdot'', Str ''bfmmla'', Str ''bfcvt'']]),
    (''bf16fml'', seqs [C Ws, alts [Str ''bfmlalb'', Str ''bfmlalt'']]),
    (''sve'', seqs [C Ws, Str ''z'', Plus digit, Str ''.'']),
    (''sve2'', seqs [C Ws, alts [sp ''sqrdmlah'' ''z'', sp ''sqrdmlsh'' ''z'', Str ''match'',
        Str ''nmatch'', Str ''histcnt'', Str ''histseg'', Str ''addhnb'', Str ''raddhnb'']]),
    (''svei8mm'', seqs [C Ws, alts [sp ''smmla'' ''z'', sp ''ummla'' ''z'', sp ''usmmla'' ''z'']]),
    (''svebf16'', seqs [C Ws, alts [sp ''bfdot'' ''z'', sp ''bfmmla'' ''z'', sp ''bfcvt'' ''z'']]),
    (''sveaes'', seqs [C Ws, alts [sp ''aesd'' ''z'', sp ''aese'' ''z'', sp ''aesimc'' ''z'',
        sp ''aesmc'' ''z'']]),
    (''svepmull'', seqs [C Ws, sp ''pmull'' ''z'']),
    (''svebitperm'', seqs [C Ws, alts [Str ''bext'', Str ''bdep'', Str ''bgrp'']]),
    (''svesha3'', seqs [C Ws, alts [Str ''rax1'', Str ''bcax'', Str ''eor3'', Str ''xar'']]),
    (''svesm4'', seqs [C Ws, alts [sp ''sm4e'' ''z'', sp ''sm4ekey'' ''z'']]),
    (''fphp'', seqs [C Ws, alts [sp ''fcvt'' ''h'', sp ''fadd'' ''h'', sp ''fmul'' ''h'',
        sp ''fdiv'' ''h'', sp ''fsub'' ''h'']]),
    (''fcma'', seqs [C Ws, alts [Str ''fcmla'', Str ''fcadd'']]),
    (''frint'', seqs [C Ws, alts [Str ''frint32x'', Str ''frint64x'', Str ''frint32z'',
        Str ''frint64z'']]),
    (''aes'', seqs [C Ws, alts [Str ''aese'', Str ''aesd'', Str ''aesmc'', Str ''aesimc'']]),
    (''pmull'', seqs [C Ws, Str ''pmull'']),
    (''sha1'', seqs [C Ws, Str ''sha1'', C (Cls [One CHR ''c'', One CHR ''p'', One CHR ''m'',
        One CHR ''h'', One CHR ''s'', One CHR ''u''])]),
    (''sha2'', seqs [C Ws, alts [Seq (Str ''sha256'') (C hsu), Seq (Str ''sha512'') (C hsu)]]),
    (''sha3'', seqs [C Ws, alts [Str ''rax1'', Str ''bcax'', Str ''eor3'', Str ''xar'']]),
    (''sha512'', seqs [C Ws, Seq (Str ''sha512'') (C hsu)]),
    (''sm3'', seqs [C Ws, alts [Str ''sm3ss1'',
        seqs [Str ''sm3tt'', C (Cls [One CHR ''1'', One CHR ''2'']),
              C (Cls [One CHR ''a'', One CHR ''b''])],
        seqs [Str ''sm3partw'', C (Cls [One CHR ''1'', One CHR ''2''])]]]),
    (''sm4'', seqs [C Ws, alts [Str ''sm4e'', Str ''sm4ekey'']]),
    (''atomics'', seqs [C Ws, alts [Str ''ldadd'', Str ''ldclr'', Str ''ldeor'', Str ''ldset'',
        Str ''ldsmax'', Str ''ldsmin'', Str ''ldumax'', Str ''ldumin'', Str ''cas'',
        Str ''casp'', Str ''swp'']]),
    (''dcpop'', seqs [C Ws, sp ''dc'' ''cvap'']),
    (''dcpodp'', seqs [C Ws, sp ''dc'' ''cvadp'']),
    (''uscat'', seqs [C Ws, alts [Str ''stset'', Str ''stclr'']]),
    (''lrcpc'', seqs [C Ws, alts [Str ''ldapr'', Str ''stlr'']]),
    (''ilrcpc'', seqs [C Ws, alts [Str ''ldapur'', Str ''stlur'']]),
    (''dgh'', seqs [C Ws, Str ''dgh'']),
    (''sb'', seqs [C Ws, Str ''sb'']),
    (''wfxt'', seqs [C Ws, alts [Str ''wfet'', Str ''wfit'']]),
    (''paca'', seqs [C Ws, alts [Str ''pacia'', Str ''pacib'', Str ''autia'', Str ''autib'']]),
    (''pacg'', seqs [C Ws, alts [Str ''pacda'', Str ''pacdb'', Str ''pacga'', Str ''autda'',
        Str ''autdb'', Str ''autga'']]),
    (''bti'', seqs [C Ws, Str ''bti'']),
    (''flagm'', seqs [C Ws, alts [Str ''setf8'', Str ''setf16'', Str ''rmif'']]),
    (''flagm2'', seqs [C Ws, alts [Str ''axflag'', Str ''xaflag'']]),
    (''jscvt'', seqs [C Ws, Str ''fjcvtzs'']),
    (''crc32'', seqs [C Ws, Str ''crc32'', C (Cls [One CHR ''b'', One CHR ''h'', One CHR ''w'',
        One CHR ''x'', One CHR ''c''])]),
    (''dit'', seqs [C Ws, sp ''msr'' ''dit'']),
    (''cpuid'', seqs [C Ws, Str ''mrs'', Plus Ws, Star Dot, Str '','', Star Ws, Str ''id_'']),
    (''evtstrm'', seqs [C Ws, Str ''evtstrm''])
  ]"

section \<open>The instruction classifier\<close>

text \<open>\<open>s.split("\n")\<close>: the pieces between newlines; never an empty list.\<close>

function split_nl :: "string \<Rightarrow> string list" where
  "split_nl s =
     (case dropWhile (\<lambda>c. c \<noteq> CHR 0x0A) s of
        [] \<Rightarrow> [s]
      | nl # rest \<Rightarrow> takeWhile (\<lambda>c. c \<noteq> CHR 0x0A) s # split_nl rest)"
  by pat_completeness auto
termination
proof (relation "measure length")
  fix s :: string and nl rest
  assume "dropWhile (\<lambda>c. c \<noteq> CHR 0x0A) s = nl # rest"
  then have "length (nl # rest) \<le> length s"
    using length_dropWhile_le [of "\<lambda>c. c \<noteq> CHR 0x0A" s] by simp
  then show "(rest, s) \<in> measure length" by simp
qed simp

declare split_nl.simps [simp del]

text \<open>
  \<open>re.search(r"^\s+[0-9a-f]+:", line)\<close>: no MULTILINE flag is given, so \<open>^\<close> holds at
  index 0 only and the search is a match of \<open>\s+[0-9a-f]+:\<close> at the front of the line.
\<close>

definition insn_re :: re where
  "insn_re = seqs [Plus Ws, Plus hexdigit, Str '':'']"

definition is_insn :: "string \<Rightarrow> bool" where
  "is_insn line = re_match insn_re line"

text \<open>\<open>BinaryInspector.count_instructions\<close>: the loop over the lines, \<open>count\<close> threaded.\<close>

fun count_loop :: "re \<Rightarrow> string list \<Rightarrow> int \<Rightarrow> int" where
  "count_loop pattern [] count = count"
| "count_loop pattern (line # lines) count =
     count_loop pattern lines
       (if is_insn line then (if re_search pattern line then count + 1 else count)
        else count)"

definition count_instructions :: "string \<Rightarrow> re \<Rightarrow> int" where
  "count_instructions disasm pattern = count_loop pattern (split_nl disasm) 0"

text \<open>\<open>sep.join(xs)\<close>.\<close>

fun join :: "string \<Rightarrow> string list \<Rightarrow> string" where
  "join sep [] = []"
| "join sep [x] = x"
| "join sep (x # xs) = x @ sep @ join sep xs"

text \<open>
  The values a report holds. A Python \<open>float\<close> is modelled as a \<open>real\<close>:
  \<open>(count * 100.0) / total_insn\<close> is the exact quotient here and the correctly rounded
  one in Python (the product is exact for every count below \<open>2^53 / 100\<close>).
\<close>

datatype val = VStr string | VInt int | VFloat real

text \<open>
  An \<open>OrderedDict\<close>: keys in insertion order; storing under a key that is present
  replaces the value where it stands.
\<close>

type_synonym odict = "(string \<times> val) list"

fun od_set :: "odict \<Rightarrow> string \<Rightarrow> val \<Rightarrow> odict" where
  "od_set [] k v = [(k, v)]"
| "od_set ((k', v') # d) k v = (if k' = k then (k, v) # d else (k', v') # od_set d k v)"

fun od_update :: "odict \<Rightarrow> odict \<Rightarrow> odict" where
  "od_update d [] = d"
| "od_update d ((k, v) # e) = od_update (od_set d k v) e"

text \<open>The three accumulators of the loop over \<open>INSPECT_ARRAY.items()\<close>.\<close>

record scan =
  detected :: "string list"
  undetected :: "string list"
  extension_results :: odict

fun scan_loop :: "string \<Rightarrow> int \<Rightarrow> (string \<times> re) list \<Rightarrow> scan \<Rightarrow> scan" where
  "scan_loop disasm total_insn [] st = st"
| "scan_loop disasm total_insn ((ext_name, pattern) # items) st =
     (let count = count_instructions disasm pattern;
          percentage = (if total_insn > 0 then (real_of_int count * 100) / real_of_int total_insn
                        else 0);
          er = od_set (od_set (extension_results st)
                 (ext_name @ ''_instructions'') (VInt count))
                 (ext_name @ ''_instructions_percentage'') (VFloat percentage)
      in scan_loop disasm total_insn items
           (if count > 0
            then st\<lparr>detected := detected st @ [ext_name], extension_results := er\<rparr>
            else st\<lparr>undetected := undetected st @ [ext_name], extension_results := er\<rparr>))"

text \<open>
  \<open>total_insn = self.count_instructions(disasm, r".")\<close> and the loop, from empty
  accumulators.
\<close>

definition total_instructions :: "string \<Rightarrow> int" where
  "total_instructions disasm = count_instructions disasm (C Dot)"

definition classify :: "string \<Rightarrow> scan" where
  "classify disasm =
     scan_loop disasm (total_instructions disasm) INSPECT_ARRAY
       \<lparr>detected = [], undetected = [], extension_results = []\<rparr>"

text \<open>
  What \<open>inspect\<close> takes from outside the classifier: the binary's name and size, the
  dict \<open>parse_file_info\<close> returns, and the text \<open>disassemble\<close> returns (the empty
  string when the disassembler fails).
\<close>

record parsed_info =
  binary_format :: string
  file_arch :: string
  elf_version :: string
  dynamically_linked :: bool
  interpreter :: string
  android_api :: string
  builder :: string
  build_id_sha1 :: string
  debug_info :: bool
  stripped :: bool

record binary =
  binary_name :: string
  info :: parsed_info
  size_bytes :: nat
  disasm :: string

text \<open>\<open>str(b).lower()\<close> for a \<open>bool\<close>.\<close>

definition str_lower_bool :: "bool \<Rightarrow> string" where
  "str_lower_bool b = (if b then ''true'' else ''false'')"

text \<open>\<open>BinaryInspector.inspect\<close>.\<close>

definition inspect :: "binary \<Rightarrow> odict" where
  "inspect b =
     (let parsed = info b;
          size_mb = real (size_bytes b) / (1024 * 1024);
          total_insn = total_instructions (disasm b);
          st = classify (disasm b);
          detected_extensions =
            (if detected st \<noteq> [] then join '';'' (detected st) else ''none'');
          undetected_extensions =
            (if undetected st \<noteq> [] then join '';'' (undetected st) else ''none'');
          output = foldl (\<lambda>d (k, v). od_set d k v) [] [
            (''binary_name'', VStr (binary_name b)),
            (''detected_extensions'', VStr detected_extensions),
            (''undetected_extensions'', VStr undetected_extensions),
            (''binary_format'', VStr (binary_format parsed)),
            (''arch'', VStr (file_arch parsed)),
            (''elf_version'', VStr (elf_version parsed)),
            (''dynamically_linked'', VStr (str_lower_bool (dynamically_linked parsed))),
            (''interpreter'', VStr (interpreter parsed)),
            (''android_api'', VStr (android_api parsed)),
            (''builder'', VStr (builder parsed)),
            (''build_id_sha1'', VStr (build_id_sha1 parsed)),
            (''debug_info'', VStr (str_lower_bool (debug_info parsed))),
            (''stripped'', VStr (str_lower_bool (stripped parsed))),
            (''binary_size_mb'', VFloat size_mb),
            (''total_instructions'', VInt total_insn)]
      in od_update output (extension_results st))"

section \<open>The auxv decoder (tools/auxv.print.py)\<close>

text \<open>
  What the decoder takes from the machine it runs on: the byte order of \<open>struct\<close>'s
  native mode (the formats \<open>"QQ"\<close> and \<open>"II"\<close> carry no byte-order prefix) and
  \<open>ctypes.sizeof(ctypes.c_ulong)\<close>.
\<close>

datatype byteorder = Little | Big

record host =
  byteorder :: byteorder
  sizeof_ulong :: nat

type_synonym byte = "8 word"

datatype error = UnsupportedWordSize nat | StructError

text \<open>An unsigned integer from its bytes, least significant byte first.\<close>

fun le_uint :: "byte list \<Rightarrow> int" where
  "le_uint [] = 0"
| "le_uint (b # bs) = uint b + 256 * le_uint bs"

definition unpack_uint :: "byteorder \<Rightarrow> byte list \<Rightarrow> int" where
  "unpack_uint bo bs = (case bo of Little \<Rightarrow> le_uint bs | Big \<Rightarrow> le_uint (rev bs))"

text \<open>
  The two formats and the size of one field: \<open>Q\<close> is 8 bytes, \<open>I\<close> is 4 bytes.
  \<open>struct.unpack\<close> raises \<open>struct.error\<close> unless the buffer has exactly the size of
  the format.
\<close>

datatype fmt = QQ | II

fun field_size :: "fmt \<Rightarrow> nat" where
  "field_size QQ = 8"
| "field_size II = 4"

definition unpack :: "byteorder \<Rightarrow> fmt \<Rightarrow> byte list \<Rightarrow> error + (int \<times> int)" where
  "unpack bo f buf =
     (if length buf \<noteq> 2 * field_size f then Inl StructError
      else Inr (unpack_uint bo (take (field_size f) buf),
                unpack_uint bo (drop (field_size f) buf)))"

text \<open>\<open>range(0, n, step)\<close> for a positive \<open>step\<close> (it is 16 or 8 in the source).\<close>

definition range_step :: "nat \<Rightarrow> nat \<Rightarrow> nat list" where
  "range_step n step = map (\<lambda>j. j * step) [0 ..< (n + step - 1) div step]"

type_synonym entries = "(int \<times> int) list"

text \<open>
  The body of \<open>for i in range(0, len(data), step)\<close>, over the indices still to come;
  each \<open>break\<close> returns the entries collected so far. \<open>data[i : i + step]\<close> is
  \<open>take step (drop i data)\<close>.
\<close>

fun auxv_loop ::
  "byteorder \<Rightarrow> fmt \<Rightarrow> nat \<Rightarrow> byte list \<Rightarrow> nat list \<Rightarrow> entries \<Rightarrow> error + entries" where
  "auxv_loop bo f step data [] entries = Inr entries"
| "auxv_loop bo f step data (i # is) entries =
     (let chunk = take step (drop i data) in
      if length chunk < step then Inr entries
      else (case unpack bo f chunk of
              Inl e \<Rightarrow> Inl e
            | Inr (a_type, a_val) \<Rightarrow>
                if a_type = 0 then Inr entries
                else auxv_loop bo f step data is (entries @ [(a_type, a_val)])))"

text \<open>
  \<open>parse_auxv\<close> on raw bytes (for a path, the bytes read from the file); \<open>arch\<close> is
  \<open>None\<close> or the hint.
\<close>

definition word_size :: "host \<Rightarrow> string option \<Rightarrow> nat" where
  "word_size h arch =
     (if arch = Some ''aarch64'' \<or> arch = Some ''x86_64'' then 8
      else if arch = Some ''i386'' \<or> arch = Some ''i686'' then 4
      else sizeof_ulong h)"

definition parse_auxv :: "host \<Rightarrow> byte list \<Rightarrow> string option \<Rightarrow> error + entries" where
  "parse_auxv h data arch =
     (let ul_size = word_size h arch in
      if ul_size = 8
      then auxv_loop (byteorder h) QQ 16 data (range_step (length data) 16) []
      else if ul_size = 4
      then auxv_loop (byteorder h) II 8 data (range_step (length data) 8) []
      else Inl (UnsupportedWordSize ul_size))"

section \<open>Hardware capability tables and their expansion\<close>

definition AARCH64_HWCAP :: "(nat \<times> string) list" where
  "AARCH64_HWCAP = [
    (0, ''FP''), (1, ''ASIMD''), (2, ''EVTSTRM''), (3, ''AES''), (4, ''PMULL''),
    (5, ''SHA1''), (6, ''SHA2''), (7, ''CRC32''), (8, ''ATOMICS''), (9, ''FPHP''),
    (10, ''ASIMDHP''), (11, ''CPUID''), (12, ''ASIMDRDM''), (13, ''JSCVT''), (14, ''FCMA''),
    (15, ''LRCPC''), (16, ''DCPOP''), (17, ''SHA3''), (18, ''SM3''), (19, ''SM4''),
    (20, ''ASIMDDP''), (21, ''SHA512''), (22, ''SVE''), (23, ''ASIMDFHM''), (28, ''ILRCPC''),
    (29, ''FLAGM''), (30, ''SSBS''), (31, ''SB'')]"

definition AARCH64_HWCAP2 :: "(nat \<times> string) list" where
  "AARCH64_HWCAP2 = [
    (0, ''DCPODP''), (1, ''SVE2''), (2, ''SVEAES''), (3, ''SVEPMULL''), (4, ''SVEBITPERM''),
    (5, ''SVESHA3''), (6, ''SVESM4''), (7, ''FLAGM2''), (8, ''FRINT''), (9, ''SVEI8MM''),
    (10, ''SVEF32MM''), (11, ''SVEF64MM''), (12, ''SVEBF16''), (13, ''I8MM''), (14, ''BF16''),
    (15, ''DGH''), (16, ''RNG''), (17, ''BTI''), (20, ''MTE''), (21, ''ECV''), (22, ''AFP''),
    (23, ''RPRFM''), (28, ''MTE3''), (29, ''SSELECT''), (30, ''IDST'')]"

definition X86_HWCAP :: "(nat \<times> string) list" where
  "X86_HWCAP = [
    (0, ''FPU''), (1, ''VME''), (2, ''DE''), (3, ''PSE''), (4, ''TSC''), (5, ''MSR''),
    (6, ''PAE''), (7, ''MCE''), (8, ''CX8''), (9, ''APIC''), (11, ''SEP''), (12, ''MTRR''),
    (13, ''PGE''), (14, ''MCA''), (15, ''CMOV''), (16, ''PAT''), (17, ''PSE36''),
    (19, ''CLFLUSH''), (23, ''MMX''), (25, ''SSE''), (26, ''SSE2'')]"

text \<open>\<open>(bits >> bit) & 1\<close> as a condition: bit \<open>bit\<close> of \<open>bits\<close> is set.\<close>

definition bit_is_set :: "int \<Rightarrow> nat \<Rightarrow> bool" where
  "bit_is_set bits b = ((bits div 2 ^ b) mod 2 \<noteq> 0)"

text \<open>\<open>bits_to_names\<close>: the comprehension runs over \<open>table.items()\<close> in table order.\<close>

definition bits_to_names :: "int \<Rightarrow> (nat \<times> string) list \<Rightarrow> string list" where
  "bits_to_names bits table = map snd (filter (\<lambda>(b, name). bit_is_set bits b) table)"

text \<open>
  \<open>sorted(names)\<close> on strings orders them by code point, character by character: the
  lexicographic order on \<open>string\<close>; \<open>sort\<close> yields the one sorted arrangement.
\<close>

definition sorted_names :: "string list \<Rightarrow> string list" where
  "sorted_names names = sort names"

text \<open>\<open>"%x" % n\<close>: lower-case hexadecimal, a minus sign first when \<open>n\<close> is negative.\<close>

definition hex_digit :: "nat \<Rightarrow> char" where
  "hex_digit d = ''0123456789abcdef'' ! d"

function hex_nat :: "nat \<Rightarrow> string" where
  "hex_nat n = (if n < 16 then [hex_digit n] else hex_nat (n div 16) @ [hex_digit (n mod 16)])"
  by pat_completeness auto
termination
  by (relation "measure id") auto

declare hex_nat.simps [simp del]

definition hex_int :: "int \<Rightarrow> string" where
  "hex_int n = (if n < 0 then ''-'' @ hex_nat (nat (- n)) else hex_nat (nat n))"

text \<open>\<open>decode_hwcap\<close>.\<close>

definition decode_hwcap :: "string \<Rightarrow> int \<Rightarrow> int \<Rightarrow> string list" where
  "decode_hwcap arch hwcap hwcap2 =
     (if arch = ''aarch64'' then
        (let names1 = bits_to_names hwcap AARCH64_HWCAP;
             names2 = bits_to_names hwcap2 AARCH64_HWCAP2;
             lines = (if names1 \<noteq> [] then [''HWCAP:  '' @ join '', '' (sorted_names names1)]
                      else [])
         in if names2 \<noteq> [] then lines @ [''HWCAP2: '' @ join '', '' (sorted_names names2)]
            else lines)
      else if arch = ''x86_64'' \<or> arch = ''i386'' \<or> arch = ''i686'' then
        (let names = map snd (filter (\<lambda>(b, name). bit_is_set hwcap b) X86_HWCAP);
             lines = (if names \<noteq> [] then [''HWCAP:  '' @ join '', '' (sorted_names names)]
                      else [])
         in if hwcap2 \<noteq> 0
            then lines @ [''HWCAP2: 0x'' @ hex_int hwcap2 @ '' (rarely used on x86)'']
            else lines)
      else [])"

section \<open>Vocabulary of the statements\<close>

text \<open>
  The condition under which \<open>count_instructions\<close> adds one for a line: the line is an
  instruction line and the pattern is found in it.
\<close>

definition counted :: "re \<Rightarrow> string \<Rightarrow> bool" where
  "counted pattern line = (is_insn line \<and> re_search pattern line)"

text \<open>
  A line that begins with white space, a hexadecimal offset and a colon, read off the
  line from left to right.
\<close>

definition begins_insn :: "string \<Rightarrow> bool" where
  "begins_insn line =
     (let a = dropWhile is_space line; b = dropWhile (cc hexdigit) a
      in length a < length line \<and> length b < length a \<and> take 1 b = '':'')"

text \<open>
  The percentage \<open>inspect\<close> computes from a count and the total, the two entries it
  stores for one category, and their keys.
\<close>

definition pct :: "int \<Rightarrow> int \<Rightarrow> real" where
  "pct c t = (if t > 0 then (real_of_int c * 100) / real_of_int t else 0)"

definition ext_entries :: "string \<Rightarrow> int \<Rightarrow> string \<times> re \<Rightarrow> odict" where
  "ext_entries d t = (\<lambda>(n, p).
     [(n @ ''_instructions'', VInt (count_instructions d p)),
      (n @ ''_instructions_percentage'', VFloat (pct (count_instructions d p) t))])"

definition ext_keys :: "string \<Rightarrow> string list" where
  "ext_keys n = [n @ ''_instructions'', n @ ''_instructions_percentage'']"

text \<open>The keys \<open>inspect\<close> stores before the per-category entries, and their entries.\<close>

definition fixed_keys :: "string list" where
  "fixed_keys = [''binary_name'', ''detected_extensions'', ''undetected_extensions'',
     ''binary_format'', ''arch'', ''elf_version'', ''dynamically_linked'', ''interpreter'',
     ''android_api'', ''builder'', ''build_id_sha1'', ''debug_info'', ''stripped'',
     ''binary_size_mb'', ''total_instructions'']"

definition fixed_part :: "binary \<Rightarrow> odict" where
  "fixed_part b =
     [(''binary_name'', VStr (binary_name b)),
      (''detected_extensions'', VStr (if detected (classify (disasm b)) \<noteq> []
          then join '';'' (detected (classify (disasm b))) else ''none'')),
      (''undetected_extensions'', VStr (if undetected (classify (disasm b)) \<noteq> []
          then join '';'' (undetected (classify (disasm b))) else ''none'')),
      (''binary_format'', VStr (binary_format (info b))),
      (''arch'', VStr (file_arch (info b))),
      (''elf_version'', VStr (elf_version (info b))),
      (''dynamically_linked'', VStr (str_lower_bool (dynamically_linked (info b)))),
      (''interpreter'', VStr (interpreter (info b))),
      (''android_api'', VStr (android_api (info b))),
      (''builder'', VStr (builder (info b))),
      (''build_id_sha1'', VStr (build_id_sha1 (info b))),
      (''debug_info'', VStr (str_lower_bool (debug_info (info b)))),
      (''stripped'', VStr (str_lower_bool (stripped (info b)))),
      (''binary_size_mb'', VFloat (real (size_bytes b) / (1024 * 1024))),
      (''total_instructions'', VInt (total_instructions (disasm b)))]"

text \<open>A binary whose disassembly is the one instruction line of the \<open>sdot\<close> example.\<close>

definition sdot_binary :: binary where
  "sdot_binary = \<lparr>binary_name = ''x265'',
      info = \<lparr>binary_format = ''ELF 64-bit LSB pie executable'', file_arch = ''ARM aarch64'',
        elf_version = ''version 1 (SYSV)'', dynamically_linked = True,
        interpreter = ''/system/bin/linker64'', android_api = ''Android 21'',
        builder = ''NDK r26'', build_id_sha1 = ''none'', debug_info = False, stripped = True\<rparr>,
      size_bytes = 4096,
      disasm = ''  401000: sdot v0.4s, v1.16b, v2.16b''\<rparr>"

text \<open>
  The encoder of the round-trip statements, the inverse of \<open>struct.unpack\<close>: an
  unsigned integer as \<open>n\<close> bytes in a byte order, a (tag, value) pair as two fields,
  a list of pairs as consecutive pairs.
\<close>

fun le_bytes :: "nat \<Rightarrow> int \<Rightarrow> byte list" where
  "le_bytes 0 v = []"
| "le_bytes (Suc n) v = word_of_int v # le_bytes n (v div 256)"

definition pack_uint :: "byteorder \<Rightarrow> nat \<Rightarrow> int \<Rightarrow> byte list" where
  "pack_uint bo n v = (case bo of Little \<Rightarrow> le_bytes n v | Big \<Rightarrow> rev (le_bytes n v))"

definition pack_pair :: "byteorder \<Rightarrow> fmt \<Rightarrow> int \<times> int \<Rightarrow> byte list" where
  "pack_pair bo f = (\<lambda>(a_type, a_val).
     pack_uint bo (field_size f) a_type @ pack_uint bo (field_size f) a_val)"

definition pack_auxv :: "byteorder \<Rightarrow> fmt \<Rightarrow> entries \<Rightarrow> byte list" where
  "pack_auxv bo f pairs = concat (map (pack_pair bo f) pairs)"

text \<open>Two hosts with an 8-byte \<open>unsigned long\<close>, little-endian and big-endian.\<close>

definition le_host :: host where
  "le_host = \<lparr>byteorder = Little, sizeof_ulong = 8\<rparr>"

definition be_host :: host where
  "be_host = \<lparr>byteorder = Big, sizeof_ulong = 8\<rparr>"

text \<open>
  What a rule can match inside the address field of an instruction line, read off its
  syntax tree. On a text \<open>hs @ ":" @ rest\<close> with \<open>hs\<close> hexadecimal digits,
  \<open>addr_lits r = Some ws\<close> says that \<open>r\<close> matches at the front exactly when one of
  the literals \<open>ws\<close> is a prefix of \<open>hs\<close>; \<open>None\<close> says nothing. \<open>hex_str r\<close>: the
  pattern is a literal of hexadecimal digits. \<open>nws r\<close>: the pattern starts with a
  literal character that is no white space. \<open>rule_addr_words\<close> is \<open>addr_lits\<close> of what
  follows the leading \<open>\s\<close> of a rule.
\<close>

fun hex_str :: "re \<Rightarrow> bool" where
  "hex_str (Str w) = list_all (cc hexdigit) w"
| "hex_str r = False"

fun addr_lits :: "re \<Rightarrow> string list option" where
  "addr_lits (Str w) =
     (if CHR '':'' \<in> set w then None
      else if list_all (cc hexdigit) w then Some [w] else Some [])"
| "addr_lits (C c) = (if c = Ws then Some [] else None)"
| "addr_lits (Plus c) = (if c = Ws then Some [] else None)"
| "addr_lits (Star c) = None"
| "addr_lits (Seq a b) =
     (if addr_lits a = Some [] then Some []
      else if hex_str a \<and> addr_lits b = Some [] then Some [] else None)"
| "addr_lits (Alt a b) =
     (case addr_lits a of None \<Rightarrow> None
      | Some x \<Rightarrow> (case addr_lits b of None \<Rightarrow> None | Some y \<Rightarrow> Some (x @ y)))"

fun nws :: "re \<Rightarrow> bool" where
  "nws (Str w) = (case w of [] \<Rightarrow> False | c # _ \<Rightarrow> \<not> is_space c)"
| "nws (Seq a b) = nws a"
| "nws (Alt a b) = (nws a \<and> nws b)"
| "nws r = False"

fun rule_addr_words :: "re \<Rightarrow> string list option" where
  "rule_addr_words (Seq (C Ws) body) = (if nws body then addr_lits body else None)"
| "rule_addr_words r = None"

text \<open>
  Reading a report back: \<open>split_on c s\<close> is the list of pieces of \<open>s\<close> between
  occurrences of \<open>c\<close>, and \<open>listed s\<close> is the list of names a semicolon-joined field
  of the report holds (none for the literal \<open>none\<close>).
\<close>

fun split_on :: "char \<Rightarrow> string \<Rightarrow> string list" where
  "split_on c [] = [[]]"
| "split_on c (x # xs) =
     (if x = c then [] # split_on c xs
      else (case split_on c xs of [] \<Rightarrow> [[x]] | l # ls \<Rightarrow> (x # l) # ls))"

definition listed :: "string \<Rightarrow> string list" where
  "listed s = (if s = ''none'' then [] else split_on CHR '';'' s)"

text \<open>
  The names a bitmask selects from a table, as a set, and the line \<open>decode_hwcap\<close>
  renders for such a set under a label: no line for the empty set, otherwise the label
  and the names in increasing order, joined by a comma and a space.
\<close>

definition named_bits :: "int \<Rightarrow> (nat \<times> string) list \<Rightarrow> string set" where
  "named_bits bits table = {name. \<exists>b. (b, name) \<in> set table \<and> bit bits b}"

definition hwcap_line :: "string \<Rightarrow> string set \<Rightarrow> string list" where
  "hwcap_line label S = (if S = {} then [] else [label @ join '', '' (sorted_list_of_set S)])"

section \<open>Matching\<close>

lemma strip_iff: "strip w s = Some t \<longleftrightarrow> s = w @ t"
  by (induction w s rule: strip.induct) auto

lemma strip_None_iff: "strip w s = None \<longleftrightarrow> \<not> prefix w s"
  by (induction w s rule: strip.induct) auto

lemma star_k_iff:
  "star_k p s k \<longleftrightarrow> (\<exists>pre rest. s = pre @ rest \<and> list_all p pre \<and> k rest)"
proof (induction s)
  case Nil
  then show ?case by simp
next
  case (Cons x xs)
  show ?case
  proof
    assume "star_k p (x # xs) k"
    then consider "k (x # xs)" | "p x" "star_k p xs k" by auto
    then show "\<exists>pre rest. x # xs = pre @ rest \<and> list_all p pre \<and> k rest"
    proof cases
      case 1
      then have "x # xs = [] @ (x # xs) \<and> list_all p [] \<and> k (x # xs)" by simp
      then show ?thesis by blast
    next
      case 2
      then obtain pre rest where "xs = pre @ rest" "list_all p pre" "k rest"
        using Cons.IH by blast
      with 2 have "x # xs = (x # pre) @ rest \<and> list_all p (x # pre) \<and> k rest" by simp
      then show ?thesis by blast
    qed
  next
    assume "\<exists>pre rest. x # xs = pre @ rest \<and> list_all p pre \<and> k rest"
    then obtain pre rest where h: "x # xs = pre @ rest" "list_all p pre" "k rest" by blast
    show "star_k p (x # xs) k"
    proof (cases pre)
      case Nil
      with h have "k (x # xs)" by simp
      then show ?thesis by simp
    next
      case (Cons y ys)
      with h have "xs = ys @ rest" "list_all p ys" "p x" by auto
      with h(3) Cons.IH show ?thesis by auto
    qed
  qed
qed

lemma m_mono: "m r s k \<Longrightarrow> (\<And>t. k t \<Longrightarrow> k' t) \<Longrightarrow> m r s k'"
proof (induction r arbitrary: s k k')
  case (Str w)
  then show ?case by (auto split: option.splits)
next
  case (C c)
  then show ?case by (auto split: list.splits)
next
  case (Plus c)
  then show ?case by (auto split: list.splits simp: star_k_iff)
next
  case (Star c)
  then show ?case by (auto simp: star_k_iff)
next
  case (Seq a b)
  have "m a s (\<lambda>t. m b t k)" using Seq.prems(1) by simp
  then have "m a s (\<lambda>t. m b t k')"
    by (rule Seq.IH(1)) (rule Seq.IH(2), assumption, rule Seq.prems(2))
  then show ?case by simp
next
  case (Alt a b)
  then show ?case by auto
qed

lemma re_search_iff: "re_search r s \<longleftrightarrow> (\<exists>pre rest. s = pre @ rest \<and> re_match r rest)"
proof (induction s)
  case Nil
  then show ?case by simp
next
  case (Cons x xs)
  show ?case
  proof
    assume "re_search r (x # xs)"
    then consider "re_match r (x # xs)" | "re_search r xs" by auto
    then show "\<exists>pre rest. x # xs = pre @ rest \<and> re_match r rest"
    proof cases
      case 1
      then have "x # xs = [] @ (x # xs) \<and> re_match r (x # xs)" by simp
      then show ?thesis by blast
    next
      case 2
      then obtain pre rest where "xs = pre @ rest" "re_match r rest" using Cons.IH by blast
      then have "x # xs = (x # pre) @ rest \<and> re_match r rest" by simp
      then show ?thesis by blast
    qed
  next
    assume "\<exists>pre rest. x # xs = pre @ rest \<and> re_match r rest"
    then obtain pre rest where h: "x # xs = pre @ rest" "re_match r rest" by blast
    show "re_search r (x # xs)"
    proof (cases pre)
      case Nil
      with h have "re_match r (x # xs)" by simp
      then show ?thesis by simp
    next
      case (Cons y ys)
      with h have "xs = ys @ rest" by simp
      with h(2) Cons.IH show ?thesis by auto
    qed
  qed
qed


lemma m_Str_iff: "m (Str w) s k \<longleftrightarrow> (\<exists>t. s = w @ t \<and> k t)"
proof (cases "strip w s")
  case None
  then have "\<not> prefix w s" by (simp add: strip_None_iff)
  with None show ?thesis by (auto simp: prefix_def)
next
  case (Some t)
  then have "s = w @ t" by (simp add: strip_iff)
  with Some show ?thesis by auto
qed

lemma m_Plus_iff:
  "m (Plus c) s k \<longleftrightarrow> (\<exists>pre rest. s = pre @ rest \<and> pre \<noteq> [] \<and> list_all (cc c) pre \<and> k rest)"
proof
  assume "m (Plus c) s k"
  then obtain x xs where s: "s = x # xs" and x: "cc c x" and 1: "star_k (cc c) xs k"
    by (cases s) auto
  from 1 obtain pre rest where "xs = pre @ rest" "list_all (cc c) pre" "k rest"
    unfolding star_k_iff by blast
  with s x have "s = (x # pre) @ rest \<and> x # pre \<noteq> [] \<and> list_all (cc c) (x # pre) \<and> k rest"
    by simp
  then show "\<exists>pre rest. s = pre @ rest \<and> pre \<noteq> [] \<and> list_all (cc c) pre \<and> k rest" by blast
next
  assume "\<exists>pre rest. s = pre @ rest \<and> pre \<noteq> [] \<and> list_all (cc c) pre \<and> k rest"
  then obtain pre rest where h: "s = pre @ rest" "pre \<noteq> []" "list_all (cc c) pre" "k rest"
    by blast
  then obtain x ys where p: "pre = x # ys" "cc c x" "list_all (cc c) ys" by (cases pre) auto
  have "star_k (cc c) (ys @ rest) k" unfolding star_k_iff using p(3) h(4) by blast
  with h(1) p show "m (Plus c) s k" by simp
qed

lemma cc_Ws: "cc Ws = is_space"
  by (rule ext) simp

lemma is_insn_iff:
  "is_insn l \<longleftrightarrow> (\<exists>ws hx rest. l = ws @ hx @ CHR '':'' # rest \<and> ws \<noteq> [] \<and> list_all is_space ws
       \<and> hx \<noteq> [] \<and> list_all (cc hexdigit) hx)"
proof -
  have "is_insn l \<longleftrightarrow> m (Plus Ws) l (\<lambda>t. m (Plus hexdigit) t (\<lambda>t. m (Str '':'') t (\<lambda>t. True)))"
    by (simp add: is_insn_def insn_re_def re_match_def)
  also have "\<dots> \<longleftrightarrow> (\<exists>ws r1. l = ws @ r1 \<and> ws \<noteq> [] \<and> list_all is_space ws \<and>
      (\<exists>hx r2. r1 = hx @ r2 \<and> hx \<noteq> [] \<and> list_all (cc hexdigit) hx \<and> (\<exists>rest. r2 = '':'' @ rest)))"
    unfolding m_Plus_iff m_Str_iff cc_Ws by simp
  also have "\<dots> \<longleftrightarrow> (\<exists>ws hx rest. l = ws @ hx @ CHR '':'' # rest \<and> ws \<noteq> [] \<and> list_all is_space ws
       \<and> hx \<noteq> [] \<and> list_all (cc hexdigit) hx)"
    by (simp add: ex_simps [symmetric] del: ex_simps)
  finally show ?thesis .
qed

lemma m_C_iff: "m (C c) s k \<longleftrightarrow> (\<exists>x xs. s = x # xs \<and> cc c x \<and> k xs)"
  by (cases s) auto

lemma re_search_Dot: "re_search (C Dot) l \<longleftrightarrow> (\<exists>x \<in> set l. x \<noteq> CHR 0x0A)"
proof -
  have "re_search (C Dot) l \<longleftrightarrow> (\<exists>pre x xs. l = pre @ x # xs \<and> x \<noteq> CHR 0x0A)"
    unfolding re_search_iff re_match_def m_C_iff by auto
  also have "\<dots> \<longleftrightarrow> (\<exists>x. x \<in> set l \<and> x \<noteq> CHR 0x0A)"
    unfolding in_set_conv_decomp by blast
  finally show ?thesis by blast
qed

lemma is_insn_Dot:
  assumes "is_insn l"
  shows "re_search (C Dot) l"
proof -
  from assms obtain ws hx rest where "l = ws @ hx @ CHR '':'' # rest"
    unfolding is_insn_iff by blast
  then have "CHR '':'' \<in> set l" by simp
  moreover have "CHR '':'' \<noteq> CHR 0x0A" by simp
  ultimately show ?thesis unfolding re_search_Dot by blast
qed

lemma hex_not_space: "cc hexdigit x \<Longrightarrow> \<not> is_space x"
  by (auto simp: hexdigit_def is_space_def less_eq_char_def)

lemma colon_not_hex: "\<not> cc hexdigit CHR '':''"
  by (simp add: hexdigit_def)

lemma colon_not_space: "\<not> is_space CHR '':''"
  by (simp add: is_space_def)

lemma is_insn_begins: "is_insn l = begins_insn l"
proof
  assume "is_insn l"
  then obtain ws hx rest where l: "l = ws @ hx @ CHR '':'' # rest" and ws: "ws \<noteq> []" "list_all is_space ws"
    and hx: "hx \<noteq> []" "list_all (cc hexdigit) hx"
    unfolding is_insn_iff by blast
  have a: "dropWhile is_space l = hx @ CHR '':'' # rest"
  proof -
    have "dropWhile is_space l = dropWhile is_space (hx @ CHR '':'' # rest)"
      unfolding l using ws(2) by (intro dropWhile_append2) (simp add: list_all_iff)
    also have "\<dots> = hx @ CHR '':'' # rest"
      using hx hex_not_space by (cases hx) auto
    finally show ?thesis .
  qed
  have b: "dropWhile (cc hexdigit) (hx @ CHR '':'' # rest) = CHR '':'' # rest"
  proof -
    have "dropWhile (cc hexdigit) (hx @ CHR '':'' # rest) = dropWhile (cc hexdigit) (CHR '':'' # rest)"
      using hx(2) by (intro dropWhile_append2) (simp add: list_all_iff)
    then show ?thesis using colon_not_hex by simp
  qed
  show "begins_insn l"
    unfolding begins_insn_def Let_def a b using ws hx by (simp add: l)
next
  assume h: "begins_insn l"
  define ws where "ws = takeWhile is_space l"
  define a where "a = dropWhile is_space l"
  define hx where "hx = takeWhile (cc hexdigit) a"
  define b where "b = dropWhile (cc hexdigit) a"
  have 1: "l = ws @ a" by (simp add: ws_def a_def)
  have 2: "a = hx @ b" by (simp add: hx_def b_def)
  from h have 3: "length a < length l" "length b < length a" "take 1 b = '':''"
    by (simp_all add: begins_insn_def a_def b_def Let_def)
  from 3(3) obtain rest where 4: "b = CHR '':'' # rest" by (cases b) auto
  have "ws \<noteq> []" using 1 3(1) by auto
  moreover have "hx \<noteq> []" using 2 3(2) by auto
  moreover have "list_all is_space ws" by (simp add: ws_def list_all_iff) (meson set_takeWhileD)
  moreover have "list_all (cc hexdigit) hx" by (simp add: hx_def list_all_iff) (meson set_takeWhileD)
  moreover have "l = ws @ hx @ CHR '':'' # rest" using 1 2 4 by simp
  ultimately show "is_insn l" unfolding is_insn_iff by blast
qed

section \<open>Counting\<close>

lemma count_loop_eq:
  "count_loop p lines c = c + int (length (filter (counted p) lines))"
  by (induction lines arbitrary: c) (auto simp: counted_def)

lemma count_instructions_eq:
  "count_instructions d p = int (length (filter (counted p) (split_nl d)))"
  by (simp add: count_instructions_def count_loop_eq)

lemma count_instructions_nonneg: "0 \<le> count_instructions d p"
  by (simp add: count_instructions_eq)

lemma counted_Dot: "counted p l \<Longrightarrow> counted (C Dot) l"
  by (simp add: counted_def is_insn_Dot)

lemma length_filter_mono:
  "(\<And>x. P x \<Longrightarrow> Q x) \<Longrightarrow> length (filter P xs) \<le> length (filter Q xs)"
  by (induction xs) auto

lemma count_le_total: "count_instructions d p \<le> total_instructions d"
  using length_filter_mono [of "counted p" "counted (C Dot)" "split_nl d"] counted_Dot
  by (simp add: total_instructions_def count_instructions_eq)

lemma pct_bounds: "0 \<le> c \<Longrightarrow> c \<le> t \<Longrightarrow> 0 \<le> pct c t \<and> pct c t \<le> 100"
  by (auto simp: pct_def divide_le_eq)

lemma no_insn_count_zero:
  assumes "\<forall>line \<in> set (split_nl d). \<not> begins_insn line"
  shows "count_instructions d p = 0"
proof -
  have "filter (counted p) (split_nl d) = []"
    using assms by (auto simp: filter_empty_conv counted_def is_insn_begins)
  then show ?thesis by (simp add: count_instructions_eq)
qed

section \<open>The report\<close>

lemma key_neq: "n @ ''_instructions'' \<noteq> n' @ ''_instructions_percentage''"
proof
  assume "n @ ''_instructions'' = n' @ ''_instructions_percentage''"
  then have "last (n @ ''_instructions'') = last (n' @ ''_instructions_percentage'')" by simp
  then show False by simp
qed

lemma od_set_fresh: "k \<notin> fst ` set d \<Longrightarrow> od_set d k v = d @ [(k, v)]"
  by (induction d) auto

lemma keys_ext_entries: "map fst (ext_entries d t (n, p)) = ext_keys n"
  by (simp add: ext_entries_def ext_keys_def)

lemma scan_step:
  assumes "set (ext_keys n) \<inter> fst ` set (extension_results st) = {}"
  shows "od_set (od_set (extension_results st) (n @ ''_instructions'') (VInt c))
           (n @ ''_instructions_percentage'') (VFloat x)
         = extension_results st @ [(n @ ''_instructions'', VInt c),
              (n @ ''_instructions_percentage'', VFloat x)]"
proof -
  have 1: "n @ ''_instructions'' \<notin> fst ` set (extension_results st)"
    and 2: "n @ ''_instructions_percentage'' \<notin> fst ` set (extension_results st)"
    using assms by (auto simp: ext_keys_def)
  have 3: "n @ ''_instructions_percentage''
      \<notin> fst ` set (extension_results st @ [(n @ ''_instructions'', VInt c)])"
    using 2 key_neq [of n n] by auto
  show ?thesis
    using od_set_fresh [OF 1] od_set_fresh [OF 3] by simp
qed

lemma ext_keys_disjoint: "n \<noteq> n' \<Longrightarrow> set (ext_keys n) \<inter> set (ext_keys n') = {}"
  using key_neq by (auto simp: ext_keys_def)

lemma scan_loop_eq:
  assumes "distinct (map fst items)"
    and "\<And>n. n \<in> fst ` set items \<Longrightarrow> set (ext_keys n) \<inter> fst ` set (extension_results st) = {}"
  shows "scan_loop d t items st =
     \<lparr>detected = detected st @ map fst (filter (\<lambda>(n, p). count_instructions d p > 0) items),
      undetected = undetected st @ map fst (filter (\<lambda>(n, p). \<not> count_instructions d p > 0) items),
      extension_results = extension_results st @ concat (map (ext_entries d t) items)\<rparr>"
  using assms
proof (induction items arbitrary: st)
  case Nil
  then show ?case by simp
next
  case (Cons a items)
  obtain n p where a: "a = (n, p)" by (cases a)
  define c where "c = count_instructions d p"
  define er where "er = extension_results st @ ext_entries d t (n, p)"
  define st' where "st' = (if c > 0
            then st\<lparr>detected := detected st @ [n], extension_results := er\<rparr>
            else st\<lparr>undetected := undetected st @ [n], extension_results := er\<rparr>)"
  have fresh: "set (ext_keys n) \<inter> fst ` set (extension_results st) = {}"
    using Cons.prems(2) [of n] a by simp
  have step: "scan_loop d t (a # items) st = scan_loop d t items st'"
    using scan_step [OF fresh]
    by (simp add: a st'_def er_def c_def ext_entries_def pct_def Let_def)
  have er': "extension_results st' = er" by (simp add: st'_def)
  have d1: "distinct (map fst items)" using Cons.prems(1) by simp
  have d2: "set (ext_keys n') \<inter> fst ` set (extension_results st') = {}"
    if "n' \<in> fst ` set items" for n'
  proof -
    have "n' \<noteq> n" using that Cons.prems(1) a by auto
    then have "set (ext_keys n') \<inter> set (ext_keys n) = {}" by (rule ext_keys_disjoint)
    moreover have "set (ext_keys n') \<inter> fst ` set (extension_results st) = {}"
      using Cons.prems(2) [of n'] that by simp
    moreover have "fst ` set er = fst ` set (extension_results st) \<union> set (ext_keys n)"
      using keys_ext_entries [of d t n p] by (simp add: er_def image_Un flip: set_map)
    ultimately show ?thesis unfolding er' by blast
  qed
  have "scan_loop d t (a # items) st = scan_loop d t items st'" by (rule step)
  also have "\<dots> =
     \<lparr>detected = detected st' @ map fst (filter (\<lambda>(n, p). count_instructions d p > 0) items),
      undetected = undetected st' @ map fst (filter (\<lambda>(n, p). \<not> count_instructions d p > 0) items),
      extension_results = extension_results st' @ concat (map (ext_entries d t) items)\<rparr>"
    by (rule Cons.IH [OF d1 d2])
  also have "\<dots> =
     \<lparr>detected = detected st @ map fst (filter (\<lambda>(n, p). count_instructions d p > 0) (a # items)),
      undetected = undetected st @ map fst (filter (\<lambda>(n, p). \<not> count_instructions d p > 0) (a # items)),
      extension_results = extension_results st @ concat (map (ext_entries d t) (a # items))\<rparr>"
    by (simp add: a st'_def er_def c_def)
  finally show ?case .
qed

lemma names_distinct: "distinct (map fst INSPECT_ARRAY)"
  by code_simp

lemma classify_eq:
  "classify d =
     \<lparr>detected = map fst (filter (\<lambda>(n, p). count_instructions d p > 0) INSPECT_ARRAY),
      undetected = map fst (filter (\<lambda>(n, p). \<not> count_instructions d p > 0) INSPECT_ARRAY),
      extension_results = concat (map (ext_entries d (total_instructions d)) INSPECT_ARRAY)\<rparr>"
  unfolding classify_def
  by (subst scan_loop_eq [OF names_distinct]) simp_all

lemma keys_concat_ext:
  "map fst (concat (map (ext_entries d t) items)) = concat (map ext_keys (map fst items))"
  by (induction items) (auto simp: ext_entries_def ext_keys_def)

lemma distinct_ext_keys:
  "distinct ns \<Longrightarrow> distinct (concat (map ext_keys ns))"
proof (induction ns)
  case Nil
  then show ?case by simp
next
  case (Cons n ns)
  have "set (ext_keys n) \<inter> set (ext_keys n') = {}" if "n' \<in> set ns" for n'
    using that Cons.prems by (intro ext_keys_disjoint) auto
  then have "set (ext_keys n) \<inter> set (concat (map ext_keys ns)) = {}" by auto
  moreover have "distinct (ext_keys n)" using key_neq [of n n] by (simp add: ext_keys_def)
  ultimately show ?case using Cons by simp
qed

lemma od_update_fresh:
  "distinct (map fst e) \<Longrightarrow> set (map fst e) \<inter> fst ` set d = {} \<Longrightarrow> od_update d e = d @ e"
proof (induction e arbitrary: d)
  case Nil
  then show ?case by simp
next
  case (Cons a e)
  obtain k v where a: "a = (k, v)" by (cases a)
  have 1: "od_set d k v = d @ [(k, v)]" using Cons.prems(2) a by (intro od_set_fresh) auto
  have "od_update (d @ [(k, v)]) e = (d @ [(k, v)]) @ e"
    using Cons.prems a by (intro Cons.IH) auto
  then show ?case by (simp add: a 1)
qed

lemma fixed_fresh:
  "set (concat (map ext_keys (map fst INSPECT_ARRAY))) \<inter> set fixed_keys = {}"
  by code_simp

lemma keys_fixed_part: "map fst (fixed_part b) = fixed_keys"
  by (simp add: fixed_part_def fixed_keys_def)

lemma inspect_eq:
  "inspect b = fixed_part b
     @ concat (map (ext_entries (disasm b) (total_instructions (disasm b))) INSPECT_ARRAY)"
proof -
  let ?e = "concat (map (ext_entries (disasm b) (total_instructions (disasm b))) INSPECT_ARRAY)"
  have 1: "inspect b = od_update (fixed_part b) (extension_results (classify (disasm b)))"
    by (simp add: inspect_def fixed_part_def Let_def)
  have 2: "extension_results (classify (disasm b)) = ?e"
    by (simp add: classify_eq)
  have 3: "distinct (map fst ?e)"
    unfolding keys_concat_ext by (rule distinct_ext_keys) (rule names_distinct)
  have 4: "set (map fst ?e) \<inter> fst ` set (fixed_part b) = {}"
    using fixed_fresh keys_fixed_part [of b] unfolding keys_concat_ext
    by (simp flip: set_map)
  show ?thesis unfolding 1 2 by (rule od_update_fresh [OF 3 4])
qed

lemma map_of_ext:
  assumes "distinct (map fst items)" and "(n, p) \<in> set items"
  shows "map_of (concat (map (ext_entries d t) items)) (n @ ''_instructions'')
           = Some (VInt (count_instructions d p))"
    and "map_of (concat (map (ext_entries d t) items)) (n @ ''_instructions_percentage'')
           = Some (VFloat (pct (count_instructions d p) t))"
  using assms
proof (induction items)
  case Nil
  {
    case 1 then show ?case by simp
  next
    case 2 then show ?case by simp
  }
next
  case (Cons a items)
  {
    case 1
    then show ?case
      using Cons.IH(1) key_neq [of "fst a" n] key_neq [of n "fst a"]
      by (cases a) (auto simp: ext_entries_def rev_image_eqI)
  next
    case 2
    then show ?case
      using Cons.IH(2) key_neq [of "fst a" n] key_neq [of n "fst a"]
      by (cases a) (auto simp: ext_entries_def rev_image_eqI)
  }
qed

lemma map_of_fixed_None:
  assumes "n \<in> fst ` set INSPECT_ARRAY" and "k \<in> set (ext_keys n)"
  shows "map_of (fixed_part b) k = None"
proof -
  have "k \<in> set (concat (map ext_keys (map fst INSPECT_ARRAY)))" using assms by auto
  then have "k \<notin> set fixed_keys" using fixed_fresh by blast
  then show ?thesis by (simp add: map_of_eq_None_iff keys_fixed_part flip: set_map)
qed

lemma inspect_lookup:
  assumes "(n, p) \<in> set INSPECT_ARRAY"
  shows "map_of (inspect b) (n @ ''_instructions'') = Some (VInt (count_instructions (disasm b) p))"
    and "map_of (inspect b) (n @ ''_instructions_percentage'')
           = Some (VFloat (pct (count_instructions (disasm b) p) (total_instructions (disasm b))))"
proof -
  have n: "n \<in> fst ` set INSPECT_ARRAY" using assms by (rule rev_image_eqI) simp
  show "map_of (inspect b) (n @ ''_instructions'') = Some (VInt (count_instructions (disasm b) p))"
    unfolding inspect_eq map_of_append
    using map_of_fixed_None [OF n, of "n @ ''_instructions''" b]
      map_of_ext(1) [OF names_distinct assms]
    by (simp add: ext_keys_def map_add_def)
  show "map_of (inspect b) (n @ ''_instructions_percentage'')
           = Some (VFloat (pct (count_instructions (disasm b) p) (total_instructions (disasm b))))"
    unfolding inspect_eq map_of_append
    using map_of_fixed_None [OF n, of "n @ ''_instructions_percentage''" b]
      map_of_ext(2) [OF names_distinct assms]
    by (simp add: ext_keys_def map_add_def)
qed

lemma filter_split_disjoint:
  assumes "distinct (map fst xs)"
  shows "set (map fst (filter P xs)) \<inter> set (map fst (filter (\<lambda>x. \<not> P x) xs)) = {}"
proof -
  have False if "x \<in> set xs" "P x" "y \<in> set xs" "\<not> P y" "fst x = fst y" for x y
  proof -
    have "x = y" using assms that(1,3,5) by (simp add: distinct_map inj_on_def) 
    with that show False by simp
  qed
  then show ?thesis by auto
qed

lemma filter_split_union:
  "set (map fst (filter P xs)) \<union> set (map fst (filter (\<lambda>x. \<not> P x) xs)) = fst ` set xs"
  by auto

lemma m_Seq_Alt2: "m (Seq a c) s k \<Longrightarrow> m (Seq a (Alt b c)) s k"
proof -
  assume "m (Seq a c) s k"
  then have "m a s (\<lambda>t. m c t k)" by simp
  then have "m a s (\<lambda>t. m (Alt b c) t k)" by (rule m_mono) simp
  then show ?thesis by simp
qed

section \<open>Decoding\<close>

lemma length_le_bytes: "length (le_bytes n v) = n"
  by (induction n arbitrary: v) auto

lemma le_uint_le_bytes: "0 \<le> v \<Longrightarrow> v < 256 ^ n \<Longrightarrow> le_uint (le_bytes n v) = v"
proof (induction n arbitrary: v)
  case 0
  then show ?case by simp
next
  case (Suc n)
  have "v div 256 < 256 ^ n" using Suc.prems by (simp add: div_less_iff_less_mult mult.commute)
  moreover have "0 \<le> v div 256" using Suc.prems by simp
  ultimately have "le_uint (le_bytes n (v div 256)) = v div 256" by (rule Suc.IH [rotated])
  moreover have "uint (word_of_int v :: byte) = v mod 256"
    by (simp add: uint_word_of_int take_bit_eq_mod)
  ultimately show ?case by simp
qed

lemma length_pack_uint: "length (pack_uint bo n v) = n"
  by (cases bo) (simp_all add: pack_uint_def length_le_bytes)

lemma unpack_pack_uint:
  "0 \<le> v \<Longrightarrow> v < 256 ^ n \<Longrightarrow> unpack_uint bo (pack_uint bo n v) = v"
  by (cases bo) (simp_all add: pack_uint_def unpack_uint_def le_uint_le_bytes)

lemma length_pack_pair: "length (pack_pair bo f p) = 2 * field_size f"
  by (cases p) (simp add: pack_pair_def length_pack_uint)

lemma unpack_pack_pair:
  assumes "0 \<le> t" "t < 256 ^ field_size f" "0 \<le> v" "v < 256 ^ field_size f"
  shows "unpack bo f (pack_pair bo f (t, v)) = Inr (t, v)"
  using assms by (simp add: unpack_def pack_pair_def length_pack_uint unpack_pack_uint)

lemma unpack_terminator:
  "\<exists>v'. unpack bo f (pack_pair bo f (0, v)) = Inr (0, v')"
  by (simp add: unpack_def pack_pair_def length_pack_uint unpack_pack_uint)

lemma unpack_Inr:
  "length chunk = 2 * field_size f \<Longrightarrow> \<exists>t v. unpack bo f chunk = Inr (t, v)"
  by (simp add: unpack_def)

lemma auxv_loop_Cons:
  "auxv_loop bo f step data (i # is) acc =
     (if length (take step (drop i data)) < step then Inr acc
      else (case unpack bo f (take step (drop i data)) of
              Inl e \<Rightarrow> Inl e
            | Inr (a_type, a_val) \<Rightarrow>
                if a_type = 0 then Inr acc
                else auxv_loop bo f step data is (acc @ [(a_type, a_val)])))"
  by (simp only: auxv_loop.simps Let_def)

lemma auxv_loop_Inr:
  "step = 2 * field_size f \<Longrightarrow> \<exists>es. auxv_loop bo f step data is acc = Inr es"
proof (induction "is" arbitrary: acc)
  case Nil
  then show ?case by simp
next
  case (Cons i "is")
  define chunk where "chunk = take step (drop i data)"
  show ?case
  proof (cases "length chunk < step")
    case True
    then show ?thesis unfolding auxv_loop_Cons chunk_def [symmetric] by simp
  next
    case False
    moreover have "length chunk \<le> step" by (simp add: chunk_def)
    ultimately have "length chunk = 2 * field_size f" using Cons.prems by simp
    then obtain t v where u: "unpack bo f chunk = Inr (t, v)"
      using unpack_Inr by blast
    show ?thesis
      unfolding auxv_loop_Cons chunk_def [symmetric]
      using False u Cons.IH [OF Cons.prems, of "acc @ [(t, v)]"] by simp
  qed
qed

lemma parse_auxv_Inr:
  "word_size h arch = 8 \<or> word_size h arch = 4 \<Longrightarrow> \<exists>es. parse_auxv h data arch = Inr es"
  using auxv_loop_Inr [of 16 QQ] auxv_loop_Inr [of 8 II]
  by (auto simp: parse_auxv_def Let_def)

lemma chunk_append:
  "i + step \<le> length body \<Longrightarrow> take step (drop i (body @ tail)) = take step (drop i body)"
  by simp

lemma auxv_loop_tail:
  assumes "length tail < step" and "js = [] \<or> js = [length body]"
  shows "(\<And>i. i \<in> set is \<Longrightarrow> i + step \<le> length body) \<Longrightarrow>
    auxv_loop bo f step (body @ tail) (is @ js) acc = auxv_loop bo f step body is acc"
proof (induction "is" arbitrary: acc)
  case Nil
  show ?case
  proof (cases "js = []")
    case True
    then show ?thesis by simp
  next
    case False
    then have "js = [length body]" using assms(2) by simp
    then show ?thesis unfolding append_Nil auxv_loop_Cons using assms(1) by simp
  qed
next
  case (Cons i "is")
  have c: "take step (drop i (body @ tail)) = take step (drop i body)"
    using Cons.prems [of i] by (intro chunk_append) simp
  have r: "i' + step \<le> length body" if "i' \<in> set is" for i' using Cons.prems [of i'] that by simp
  have ih: "auxv_loop bo f step (body @ tail) (is @ js) acc'
      = auxv_loop bo f step body is acc'" for acc'
    by (rule Cons.IH) (rule r)
  show ?case unfolding append_Cons auxv_loop_Cons c ih ..
qed

lemma range_step_exact: "0 < step \<Longrightarrow> range_step (k * step) step = map (\<lambda>j. j * step) [0..<k]"
proof -
  assume s: "0 < step"
  have "(k * step + (step - 1)) div step = k"
    using s div_mult_self3 [of step k "step - 1"] by simp
  moreover have "k * step + step - 1 = k * step + (step - 1)" using s by simp
  ultimately have "(k * step + step - 1) div step = k" by simp
  then show ?thesis by (simp add: range_step_def)
qed

lemma range_step_partial:
  assumes "0 < t" "t < step"
  shows "range_step (k * step + t) step = map (\<lambda>j. j * step) [0..<k] @ [k * step]"
proof -
  have e: "k * step + t + step - 1 = Suc k * step + (t - 1)" using assms by simp
  have "(Suc k * step + (t - 1)) div step = Suc k"
    using assms div_mult_self3 [of step "Suc k" "t - 1"] by simp
  then have "(k * step + t + step - 1) div step = Suc k" unfolding e .
  then show ?thesis by (simp add: range_step_def)
qed

lemma range_step_bound:
  "0 < step \<Longrightarrow> i \<in> set (map (\<lambda>j. j * step) [0..<k]) \<Longrightarrow> i + step \<le> k * step"
proof -
  assume s: "0 < step" and "i \<in> set (map (\<lambda>j. j * step) [0..<k])"
  then obtain j where j: "i = j * step" "j < k" by auto
  then have "Suc j * step \<le> k * step" by (intro mult_le_mono1) simp
  then show ?thesis using j by simp
qed

lemma loop_truncated_tail:
  assumes "0 < step" "step dvd length body" "length tail < step"
  shows "auxv_loop bo f step (body @ tail) (range_step (length (body @ tail)) step) []
       = auxv_loop bo f step body (range_step (length body) step) []"
proof -
  from assms(2) obtain k where k: "length body = k * step" by (auto simp: dvd_def mult.commute)
  have b: "i + step \<le> length body" if "i \<in> set (map (\<lambda>j. j * step) [0..<k])" for i
    using range_step_bound [OF assms(1) that] k by simp
  have rb: "range_step (length body) step = map (\<lambda>j. j * step) [0..<k]"
    unfolding k by (rule range_step_exact [OF assms(1)])
  show ?thesis
  proof (cases "tail = []")
    case True
    then show ?thesis by simp
  next
    case False
    then have "0 < length tail" by simp
    then have "range_step (length (body @ tail)) step = map (\<lambda>j. j * step) [0..<k] @ [length body]"
      using range_step_partial [of "length tail" step k] assms(3) k by simp
    then show ?thesis
      unfolding rb
      using auxv_loop_tail [OF assms(3), of "[length body]" body "map (\<lambda>j. j * step) [0..<k]"] b
      by simp
  qed
qed

lemma length_pack_auxv: "length (pack_auxv bo f pairs) = length pairs * (2 * field_size f)"
  by (induction pairs) (simp_all add: pack_auxv_def length_pack_pair)

lemma loop_roundtrip:
  assumes step: "step = 2 * field_size f"
    and ok: "\<And>t v. (t, v) \<in> set pairs \<Longrightarrow>
               t \<noteq> 0 \<and> 0 \<le> t \<and> t < 256 ^ field_size f \<and> 0 \<le> v \<and> v < 256 ^ field_size f"
  shows "length pre = off \<Longrightarrow> length pairs < n \<Longrightarrow>
    auxv_loop bo f step (pre @ pack_auxv bo f pairs @ pack_pair bo f (0, v0) @ rest)
      (map (\<lambda>j. off + j * step) [0..<n]) acc = Inr (acc @ pairs)"
  using ok
proof (induction pairs arbitrary: pre off n acc)
  case Nil
  from Nil.prems(2) obtain n' where n: "n = Suc n'" by (cases n) auto
  have idx: "map (\<lambda>j. off + j * step) [0..<n] = off # map (\<lambda>j. off + j * step) [1..<n]"
    unfolding n by (simp add: upt_rec)
  have chunk: "take step (drop off (pre @ pack_auxv bo f [] @ pack_pair bo f (0, v0) @ rest))
      = pack_pair bo f (0, v0)"
    using Nil.prems(1) by (simp add: pack_auxv_def length_pack_pair step)
  obtain v' where u: "unpack bo f (pack_pair bo f (0, v0)) = Inr (0, v')"
    using unpack_terminator by blast
  show ?case unfolding idx auxv_loop_Cons chunk u by (simp add: length_pack_pair step)
next
  case (Cons p pairs)
  obtain t v where p: "p = (t, v)" by (cases p)
  have tv: "t \<noteq> 0" "0 \<le> t" "t < 256 ^ field_size f" "0 \<le> v" "v < 256 ^ field_size f"
    using Cons.prems(3) [of t v] p by simp_all
  from Cons.prems(2) obtain n' where n: "n = Suc n'" and n': "length pairs < n'"
    by (cases n) auto
  have idx: "map (\<lambda>j. off + j * step) [0..<n]
      = off # map (\<lambda>j. (off + step) + j * step) [0..<n']"
    unfolding n by (simp add: upt_rec [of 0] map_Suc_upt [symmetric] del: upt_Suc)
  have data: "pre @ pack_auxv bo f (p # pairs) @ pack_pair bo f (0, v0) @ rest
      = (pre @ pack_pair bo f p) @ pack_auxv bo f pairs @ pack_pair bo f (0, v0) @ rest"
    by (simp add: pack_auxv_def)
  have chunk: "take step (drop off ((pre @ pack_pair bo f p) @ pack_auxv bo f pairs
      @ pack_pair bo f (0, v0) @ rest)) = pack_pair bo f p"
    using Cons.prems(1) by (simp add: length_pack_pair step)
  have u: "unpack bo f (pack_pair bo f p) = Inr (t, v)"
    unfolding p using tv by (intro unpack_pack_pair)
  have ih: "auxv_loop bo f step ((pre @ pack_pair bo f p) @ pack_auxv bo f pairs
      @ pack_pair bo f (0, v0) @ rest) (map (\<lambda>j. (off + step) + j * step) [0..<n']) acc'
      = Inr (acc' @ pairs)" for acc'
  proof (rule Cons.IH)
    show "length (pre @ pack_pair bo f p) = off + step"
      using Cons.prems(1) by (simp add: length_pack_pair step)
    show "length pairs < n'" by (rule n')
    show "t' \<noteq> 0 \<and> 0 \<le> t' \<and> t' < 256 ^ field_size f \<and> 0 \<le> v' \<and> v' < 256 ^ field_size f"
      if "(t', v') \<in> set pairs" for t' v'
      using Cons.prems(3) [of t' v'] that by simp
  qed
  show ?case
    unfolding data idx auxv_loop_Cons chunk u ih
    using tv(1) by (simp add: length_pack_pair step p)
qed

lemma range_step_ge:
  assumes "0 < step"
  shows "\<exists>n. range_step len step = map (\<lambda>j. 0 + j * step) [0..<n] \<and> len \<le> n * step"
proof -
  let ?n = "(len + step - 1) div step"
  have "len + step - 1 < ?n * step + step"
    using assms div_mult_mod_eq [of "len + step - 1" step] mod_less_divisor [OF assms, of "len + step - 1"]
    by linarith
  then have "len \<le> ?n * step" using assms by linarith
  then show ?thesis by (auto simp: range_step_def)
qed

section \<open>Expanding capability bits\<close>

lemma bit_is_set_iff: "bit_is_set bits b \<longleftrightarrow> bit bits b"
  by (simp add: bit_is_set_def bit_iff_odd odd_iff_mod_2_eq_one)

lemma set_bits_to_names:
  "set (bits_to_names bits table) = {name. \<exists>b. (b, name) \<in> set table \<and> bit bits b}"
  by (auto simp: bits_to_names_def bit_is_set_iff intro: rev_image_eqI)

lemma subseq_bits_to_names: "subseq (bits_to_names bits table) (map snd table)"
  unfolding bits_to_names_def by (intro subseq_map subseq_filter_left)

section \<open>Rules and the address field\<close>

lemma nws_sound: "nws r \<Longrightarrow> is_space x \<Longrightarrow> \<not> m r (x # t) k"
proof (induction r arbitrary: k)
  case (Str w)
  then show ?case by (cases w) (auto split: option.splits)
next
  case (Seq a b)
  then show ?case by simp
next
  case (Alt a b)
  then show ?case by simp
qed simp_all

lemma prefix_addr:
  assumes "list_all (cc hexdigit) w" and "hs @ CHR '':'' # rest = w @ t"
  shows "\<exists>hs'. hs = w @ hs' \<and> t = hs' @ CHR '':'' # rest"
proof -
  from assms(2) consider us where "hs = w @ us" "us @ CHR '':'' # rest = t"
    | us where "hs @ us = w" "CHR '':'' # rest = us @ t" "us \<noteq> []"
    by (auto simp: append_eq_append_conv2) (metis append_Nil2)
  then show ?thesis
  proof cases
    case 1
    then show ?thesis by auto
  next
    case 2
    then obtain us' where "us = CHR '':'' # us'" by (cases us) auto
    with 2(1) have "CHR '':'' \<in> set w" by auto
    with assms(1) colon_not_hex show ?thesis by (auto simp: list_all_iff)
  qed
qed

lemma Str_addr_nohex:
  assumes "\<not> list_all (cc hexdigit) w" "CHR '':'' \<notin> set w" "list_all (cc hexdigit) hs"
  shows "\<not> m (Str w) (hs @ CHR '':'' # rest) k"
proof
  assume "m (Str w) (hs @ CHR '':'' # rest) k"
  then obtain t where e: "hs @ CHR '':'' # rest = w @ t" unfolding m_Str_iff by blast
  then consider us where "hs = w @ us" | us where "hs @ us = w" "CHR '':'' # rest = us @ t" "us \<noteq> []"
    by (auto simp: append_eq_append_conv2) (metis append_Nil2)
  then show False
  proof cases
    case 1
    with assms(1,3) show False by simp
  next
    case 2
    then obtain us' where "us = CHR '':'' # us'" by (cases us) auto
    with 2(1) have "CHR '':'' \<in> set w" by auto
    with assms(2) show False by simp
  qed
qed

lemma Str_addr_hex:
  assumes "list_all (cc hexdigit) w" "list_all (cc hexdigit) hs"
  shows "m (Str w) (hs @ CHR '':'' # rest) k
    \<longleftrightarrow> (\<exists>hs'. hs = w @ hs' \<and> list_all (cc hexdigit) hs' \<and> k (hs' @ CHR '':'' # rest))"
proof
  assume "m (Str w) (hs @ CHR '':'' # rest) k"
  then obtain t where e: "hs @ CHR '':'' # rest = w @ t" and k: "k t" unfolding m_Str_iff by blast
  from prefix_addr [OF assms(1) e] obtain hs' where h: "hs = w @ hs'" "t = hs' @ CHR '':'' # rest"
    by blast
  with assms(2) k show "\<exists>hs'. hs = w @ hs' \<and> list_all (cc hexdigit) hs' \<and> k (hs' @ CHR '':'' # rest)"
    by auto
next
  assume "\<exists>hs'. hs = w @ hs' \<and> list_all (cc hexdigit) hs' \<and> k (hs' @ CHR '':'' # rest)"
  then show "m (Str w) (hs @ CHR '':'' # rest) k" unfolding m_Str_iff by auto
qed

lemma Ws_addr:
  assumes "list_all (cc hexdigit) hs"
  shows "\<not> m (C Ws) (hs @ CHR '':'' # rest) k" and "\<not> m (Plus Ws) (hs @ CHR '':'' # rest) k"
  using assms hex_not_space colon_not_space by (cases hs; simp)+

lemma addr_lits_none:
  "addr_lits r = Some [] \<Longrightarrow> list_all (cc hexdigit) hs \<Longrightarrow> \<not> m r (hs @ CHR '':'' # rest) k"
proof (induction r arbitrary: hs k)
  case (Str w)
  then show ?case using Str_addr_nohex [of w hs rest k] by (auto split: if_splits)
next
  case (C c)
  then show ?case using Ws_addr(1) [of hs rest k] by (auto split: if_splits)
next
  case (Plus c)
  then show ?case using Ws_addr(2) [of hs rest k] by (auto split: if_splits)
next
  case (Star c)
  then show ?case by simp
next
  case (Seq a b)
  show ?case
  proof (cases "addr_lits a = Some []")
    case True
    then show ?thesis using Seq.IH(1) [OF True Seq.prems(2)] by simp
  next
    case False
    with Seq.prems(1) have h: "hex_str a" and b: "addr_lits b = Some []"
      by (auto split: if_splits)
    from h obtain w where a: "a = Str w" and w: "list_all (cc hexdigit) w" by (cases a) auto
    show ?thesis
    proof
      assume "m (Seq a b) (hs @ CHR '':'' # rest) k"
      then have "m (Str w) (hs @ CHR '':'' # rest) (\<lambda>t. m b t k)" by (simp add: a)
      then obtain hs' where "list_all (cc hexdigit) hs'" "m b (hs' @ CHR '':'' # rest) k"
        unfolding Str_addr_hex [OF w Seq.prems(2)] by blast
      then show False using Seq.IH(2) [OF b] by blast
    qed
  qed
next
  case (Alt a b)
  from Alt.prems(1) have "addr_lits a = Some []" "addr_lits b = Some []"
    by (auto split: option.splits)
  then show ?case using Alt.IH Alt.prems(2) by simp
qed

lemma addr_lits_sound:
  "addr_lits r = Some ws \<Longrightarrow> list_all (cc hexdigit) hs \<Longrightarrow>
   re_match r (hs @ CHR '':'' # rest) \<longleftrightarrow> (\<exists>w \<in> set ws. prefix w hs)"
proof (induction r arbitrary: ws)
  case (Str w)
  show ?case
  proof (cases "list_all (cc hexdigit) w")
    case True
    with Str.prems have "ws = [w]" by (auto split: if_splits)
    then show ?thesis
      unfolding re_match_def Str_addr_hex [OF True Str.prems(2)]
      using Str.prems(2) by (auto simp: prefix_def)
  next
    case False
    with Str.prems have "ws = []" by (auto split: if_splits)
    then show ?thesis
      using addr_lits_none [of "Str w" hs rest] Str.prems False
      by (auto simp: re_match_def split: if_splits)
  qed
next
  case (C c)
  then have "ws = []" by (auto split: if_splits)
  then show ?case using addr_lits_none [of "C c" hs rest] C.prems by (simp add: re_match_def)
next
  case (Plus c)
  then have "ws = []" by (auto split: if_splits)
  then show ?case using addr_lits_none [of "Plus c" hs rest] Plus.prems by (simp add: re_match_def)
next
  case (Star c)
  then show ?case by simp
next
  case (Seq a b)
  then have "ws = []" by (auto split: if_splits)
  then show ?case using addr_lits_none [of "Seq a b" hs rest] Seq.prems by (simp add: re_match_def)
next
  case (Alt a b)
  from Alt.prems(1) obtain x y where x: "addr_lits a = Some x" and y: "addr_lits b = Some y"
    and ws: "ws = x @ y"
    by (auto split: option.splits)
  show ?case
    using Alt.IH(1) [OF x Alt.prems(2)] Alt.IH(2) [OF y Alt.prems(2)]
    by (auto simp: re_match_def ws)
qed

lemma re_search_hex_prefix:
  "list_all (cc hexdigit) hs \<Longrightarrow> re_search (Seq (C Ws) body) (hs @ t) = re_search (Seq (C Ws) body) t"
proof (induction hs)
  case Nil
  then show ?case by simp
next
  case (Cons h hs)
  then have "\<not> is_space h" using hex_not_space by simp
  then have "\<not> re_match (Seq (C Ws) body) (h # hs @ t)" by (simp add: re_match_def)
  then show ?case using Cons by simp
qed

lemma re_search_address:
  assumes "rule_addr_words rule = Some ws"
    and "pad \<noteq> []" "list_all is_space pad" "list_all (cc hexdigit) hs"
  shows "re_search rule (pad @ hs @ CHR '':'' # rest)
    \<longleftrightarrow> (\<exists>w \<in> set ws. prefix w hs) \<or> re_search rule (CHR '':'' # rest)"
proof -
  from assms(1) obtain body where rule: "rule = Seq (C Ws) body" and nws: "nws body"
    and lits: "addr_lits body = Some ws"
    by (induction rule rule: rule_addr_words.induct) (auto split: if_splits)
  have last: "re_match rule (s # hs @ CHR '':'' # rest) \<longleftrightarrow> (\<exists>w \<in> set ws. prefix w hs)"
    if "is_space s" for s
    using addr_lits_sound [OF lits assms(4), of rest] that by (simp add: rule re_match_def)
  have inner: "\<not> re_match rule (s # s' # t)" if "is_space s'" for s s' t
    using nws_sound [OF nws that] by (simp add: rule re_match_def)
  have hex: "re_search rule (hs @ CHR '':'' # rest) = re_search rule (CHR '':'' # rest)"
    unfolding rule by (rule re_search_hex_prefix [OF assms(4)])
  show ?thesis
    using assms(2,3)
  proof (induction pad rule: list_nonempty_induct)
    case (single s)
    then show ?case using last [of s] hex by simp
  next
    case (cons s pad)
    then obtain s' pad' where pad: "pad = s' # pad'" by (cases pad) auto
    with cons.prems have "is_space s'" by simp
    then have "\<not> re_match rule (s # s' # pad' @ hs @ CHR '':'' # rest)" by (rule inner)
    then show ?case using cons pad by simp
  qed
qed

lemma registry_addr_words:
  "map (\<lambda>(n, r). rule_addr_words r) INSPECT_ARRAY
   = map (\<lambda>(n, r). Some (if n = ''asimd'' then [''fadd'']
                          else if n = ''fcma'' then [''fcadd''] else [])) INSPECT_ARRAY"
  by code_simp

lemma registry_rule_words:
  assumes "(name, rule) \<in> set INSPECT_ARRAY"
  shows "rule_addr_words rule = Some (if name = ''asimd'' then [''fadd'']
                          else if name = ''fcma'' then [''fcadd''] else [])"
proof -
  have "\<forall>x \<in> set INSPECT_ARRAY. (\<lambda>(n, r). rule_addr_words r) x
      = (\<lambda>(n, r). Some (if n = ''asimd'' then [''fadd'']
                          else if n = ''fcma'' then [''fcadd''] else [])) x"
    using registry_addr_words unfolding map_eq_conv .
  from bspec [OF this assms] show ?thesis by simp
qed

section \<open>Reading the report back\<close>

lemma split_on_plain: "c \<notin> set x \<Longrightarrow> split_on c x = [x]"
  by (induction x) auto

lemma split_on_append: "c \<notin> set x \<Longrightarrow> split_on c (x @ c # rest) = x # split_on c rest"
  by (induction x) auto

lemma split_on_join:
  "xs \<noteq> [] \<Longrightarrow> (\<And>x. x \<in> set xs \<Longrightarrow> c \<notin> set x) \<Longrightarrow> split_on c (join [c] xs) = xs"
proof (induction "[c]" xs rule: join.induct)
  case 1
  then show ?case by simp
next
  case (2 x)
  then show ?case by (simp add: split_on_plain)
next
  case (3 x y ys)
  have "split_on c (join [c] (y # ys)) = y # ys" using 3 by simp
  moreover have "c \<notin> set x" using 3(3) by simp
  ultimately show ?case by (simp add: split_on_append)
qed

lemma names_plain:
  "list_all (\<lambda>(n, r). CHR '';'' \<notin> set n \<and> n \<noteq> ''none'') INSPECT_ARRAY"
  by code_simp

lemma listed_join:
  assumes "set xs \<subseteq> fst ` set INSPECT_ARRAY"
  shows "listed (if xs \<noteq> [] then join '';'' xs else ''none'') = xs"
proof (cases "xs = []")
  case True
  then show ?thesis by (simp add: listed_def)
next
  case False
  have p: "CHR '';'' \<notin> set x \<and> x \<noteq> ''none''" if "x \<in> set xs" for x
  proof -
    from that assms obtain r where "(x, r) \<in> set INSPECT_ARRAY" by auto
    with names_plain show ?thesis unfolding list_all_iff by blast
  qed
  have s: "split_on CHR '';'' (join '';'' xs) = xs"
    using split_on_join [OF False, of "CHR '';''"] p by simp
  have "join '';'' xs \<noteq> ''none''"
  proof
    assume e: "join '';'' xs = ''none''"
    have "split_on CHR '';'' ''none'' = [''none'']" by simp
    with s e have "xs = [''none'']" by simp
    with p [of "''none''"] show False by simp
  qed
  with False s show ?thesis by (simp add: listed_def)
qed

lemma inspect_fixed_lookup:
  "map_of (inspect b) ''detected_extensions''
     = Some (VStr (if detected (classify (disasm b)) \<noteq> []
          then join '';'' (detected (classify (disasm b))) else ''none''))"
  "map_of (inspect b) ''undetected_extensions''
     = Some (VStr (if undetected (classify (disasm b)) \<noteq> []
          then join '';'' (undetected (classify (disasm b))) else ''none''))"
  unfolding inspect_eq map_of_append by (simp_all add: map_add_def fixed_part_def)

section \<open>Rendering capability lines\<close>

lemma set_names: "set (bits_to_names bits table) = named_bits bits table"
  unfolding named_bits_def by (rule set_bits_to_names)

lemma distinct_bits_to_names:
  "distinct (map snd table) \<Longrightarrow> distinct (bits_to_names bits table)"
  unfolding bits_to_names_def by (rule distinct_map_filter)

lemma sorted_names_set:
  assumes "distinct (map snd table)"
  shows "sorted_names (bits_to_names bits table) = sorted_list_of_set (named_bits bits table)"
proof -
  have "sorted_list_of_set (set (bits_to_names bits table))
      = sort (remdups (bits_to_names bits table))"
    by (rule sorted_list_of_set_sort_remdups)
  also have "\<dots> = sort (bits_to_names bits table)"
    using distinct_bits_to_names [OF assms] by (simp add: distinct_remdups_id)
  finally show ?thesis by (simp add: sorted_names_def set_names)
qed

lemma tables_distinct:
  "distinct (map snd AARCH64_HWCAP)" "distinct (map snd AARCH64_HWCAP2)"
  "distinct (map snd X86_HWCAP)"
proof -
  show "distinct (map snd AARCH64_HWCAP)" by code_simp
  show "distinct (map snd AARCH64_HWCAP2)" by code_simp
  show "distinct (map snd X86_HWCAP)" by code_simp
qed

lemma names_line:
  assumes "distinct (map snd table)"
  shows "(if bits_to_names bits table \<noteq> []
          then [label @ join '', '' (sorted_names (bits_to_names bits table))] else [])
         = hwcap_line label (named_bits bits table)"
proof -
  have "bits_to_names bits table = [] \<longleftrightarrow> named_bits bits table = {}"
    unfolding set_names [symmetric] by simp
  then show ?thesis by (simp add: hwcap_line_def sorted_names_set [OF assms])
qed

lemma decode_hwcap_aarch64:
  "decode_hwcap ''aarch64'' h1 h2
   = hwcap_line ''HWCAP:  '' (named_bits h1 AARCH64_HWCAP)
     @ hwcap_line ''HWCAP2: '' (named_bits h2 AARCH64_HWCAP2)"
proof -
  have "decode_hwcap ''aarch64'' h1 h2
      = (if bits_to_names h1 AARCH64_HWCAP \<noteq> []
          then [''HWCAP:  '' @ join '', '' (sorted_names (bits_to_names h1 AARCH64_HWCAP))] else [])
        @ (if bits_to_names h2 AARCH64_HWCAP2 \<noteq> []
          then [''HWCAP2: '' @ join '', '' (sorted_names (bits_to_names h2 AARCH64_HWCAP2))] else [])"
    by (simp add: decode_hwcap_def Let_def del: join.simps)
  then show ?thesis
    unfolding names_line [OF tables_distinct(1)] names_line [OF tables_distinct(2)] .
qed

lemma decode_hwcap_x86:
  assumes "a = ''x86_64'' \<or> a = ''i386'' \<or> a = ''i686''"
  shows "decode_hwcap a h1 h2
   = hwcap_line ''HWCAP:  '' (named_bits h1 X86_HWCAP)
     @ (if h2 \<noteq> 0 then [''HWCAP2: 0x'' @ hex_int h2 @ '' (rarely used on x86)''] else [])"
proof -
  have n: "a \<noteq> ''aarch64''" using assms by auto
  have "decode_hwcap a h1 h2
      = (if bits_to_names h1 X86_HWCAP \<noteq> []
          then [''HWCAP:  '' @ join '', '' (sorted_names (bits_to_names h1 X86_HWCAP))] else [])
        @ (if h2 \<noteq> 0 then [''HWCAP2: 0x'' @ hex_int h2 @ '' (rarely used on x86)''] else [])"
    using assms n by (simp add: decode_hwcap_def Let_def bits_to_names_def del: join.simps)
  then show ?thesis unfolding names_line [OF tables_distinct(3)] .
qed

lemma decode_hwcap_other:
  assumes "a \<noteq> ''aarch64''" "a \<noteq> ''x86_64''" "a \<noteq> ''i386''" "a \<noteq> ''i686''"
  shows "decode_hwcap a h1 h2 = []"
  using assms by (simp add: decode_hwcap_def)

section \<open>Where a rule of the registry matches an address\<close>

lemma registry_address_hits:
  assumes "(name, rule) \<in> set INSPECT_ARRAY"
    and "pad \<noteq> []" "list_all is_space pad" "list_all (cc hexdigit) hs"
  shows "re_search rule (pad @ hs @ CHR '':'' # rest)
    \<longleftrightarrow> (name = ''asimd'' \<and> prefix ''fadd'' hs) \<or> (name = ''fcma'' \<and> prefix ''fcadd'' hs)
        \<or> re_search rule (CHR '':'' # rest)"
  using re_search_address [OF registry_rule_words [OF assms(1)] assms(2-4), of rest]
  by auto

section \<open>Claims about the classifier\<close>

text \<open>
  C7. For the single instruction line \<open>  401000: sdot v0.4s, v1.16b, v2.16b\<close> the
  classifier counts one match for the category \<open>asimddp\<close> and no match for any other
  category of the registry: the categories with their counts, in registry order.
\<close>

theorem sdot_line_classified:
  "map (\<lambda>(name, pattern).
          (name, count_instructions ''  401000: sdot v0.4s, v1.16b, v2.16b'' pattern))
       INSPECT_ARRAY
   = [
      (''asimd'', 0), (''asimdhp'', 0), (''asimdfhm'', 0), (''asimddp'', 1),
      (''asimdrdm'', 0), (''i8mm'', 0), (''bf16'', 0), (''bf16fml'', 0), (''sve'', 0),
      (''sve2'', 0), (''svei8mm'', 0), (''svebf16'', 0), (''sveaes'', 0), (''svepmull'',
      0), (''svebitperm'', 0), (''svesha3'', 0), (''svesm4'', 0), (''fphp'', 0),
      (''fcma'', 0), (''frint'', 0), (''aes'', 0), (''pmull'', 0), (''sha1'', 0),
      (''sha2'', 0), (''sha3'', 0), (''sha512'', 0), (''sm3'', 0), (''sm4'', 0),
      (''atomics'', 0), (''dcpop'', 0), (''dcpodp'', 0), (''uscat'', 0), (''lrcpc'', 0),
      (''ilrcpc'', 0), (''dgh'', 0), (''sb'', 0), (''wfxt'', 0), (''paca'', 0),
      (''pacg'', 0), (''bti'', 0), (''flagm'', 0), (''flagm2'', 0), (''jscvt'', 0),
      (''crc32'', 0), (''dit'', 0), (''cpuid'', 0), (''evtstrm'', 0)]"
  by code_simp

text \<open>
  C8. When no line of the instruction stream begins with white space, a hexadecimal
  offset and a colon (the empty stream is one such), the total instruction count is 0,
  and the classifier stores the count 0 and the percentage 0.0 for every category of
  the registry; no category is detected.
\<close>

theorem no_instruction_lines_all_zero:
  assumes "\<forall>line \<in> set (split_nl d). \<not> begins_insn line"
  shows "total_instructions d = 0
    \<and> extension_results (classify d) =
        concat (map (\<lambda>(n, p). [(n @ ''_instructions'', VInt 0),
                                 (n @ ''_instructions_percentage'', VFloat 0)]) INSPECT_ARRAY)
    \<and> detected (classify d) = []"
proof -
  have z: "count_instructions d p = 0" for p using assms by (rule no_insn_count_zero)
  have t: "total_instructions d = 0" by (simp add: total_instructions_def z)
  have "ext_entries d 0 = (\<lambda>(n, p). [(n @ ''_instructions'', VInt 0),
                                 (n @ ''_instructions_percentage'', VFloat 0)])"
    by (rule ext) (simp add: ext_entries_def z pct_def split: prod.splits)
  then show ?thesis by (simp add: classify_eq t z)
qed

theorem no_instruction_lines_all_zero_witness:
  "split_nl '''' = [''''] \<and> \<not> begins_insn ''''
    \<and> total_instructions '''' = 0
    \<and> extension_results (classify '''') =
        concat (map (\<lambda>(n, p). [(n @ ''_instructions'', VInt 0),
                                 (n @ ''_instructions_percentage'', VFloat 0)]) INSPECT_ARRAY)
    \<and> detected (classify '''') = []"
proof -
  have s: "split_nl '''' = ['''']" by (simp add: split_nl.simps)
  have n: "\<not> begins_insn ''''" by (simp add: begins_insn_def)
  have h: "\<forall>line \<in> set (split_nl ''''). \<not> begins_insn line" using s n by simp
  show ?thesis using s n no_instruction_lines_all_zero [OF h] by simp
qed

text \<open>
  C10. For every instruction stream and every rule, the match count is at least 0 and at
  most the total instruction count: a line is tested against the rule only when it is an
  instruction line, and every instruction line is counted in the total. For every category
  of the registry the report therefore holds a count between 0 and the total and a
  percentage between 0 and 100.
\<close>

theorem count_at_most_total:
  "0 \<le> count_instructions d p \<and> count_instructions d p \<le> total_instructions d
   \<and> (\<forall>(n, r) \<in> set INSPECT_ARRAY. \<exists>c x.
         map_of (inspect b) (n @ ''_instructions'') = Some (VInt c)
       \<and> map_of (inspect b) (n @ ''_instructions_percentage'') = Some (VFloat x)
       \<and> map_of (inspect b) ''total_instructions'' = Some (VInt (total_instructions (disasm b)))
       \<and> 0 \<le> c \<and> c \<le> total_instructions (disasm b) \<and> 0 \<le> x \<and> x \<le> 100)"
proof -
  have tot: "map_of (inspect b) ''total_instructions'' = Some (VInt (total_instructions (disasm b)))"
  proof -
    have "''total_instructions'' \<notin> set (concat (map ext_keys (map fst INSPECT_ARRAY)))"
      using fixed_fresh by (auto simp: fixed_keys_def)
    moreover have "fst ` set (concat (map (ext_entries (disasm b) (total_instructions (disasm b)))
        INSPECT_ARRAY)) = set (concat (map ext_keys (map fst INSPECT_ARRAY)))"
      unfolding set_map [symmetric] keys_concat_ext ..
    ultimately have "map_of (concat (map (ext_entries (disasm b) (total_instructions (disasm b))) INSPECT_ARRAY))
        ''total_instructions'' = None"
      unfolding map_of_eq_None_iff by blast
    then show ?thesis
      unfolding inspect_eq map_of_append by (simp add: map_add_def fixed_part_def)
  qed
  have "\<exists>c x. map_of (inspect b) (n @ ''_instructions'') = Some (VInt c)
       \<and> map_of (inspect b) (n @ ''_instructions_percentage'') = Some (VFloat x)
       \<and> map_of (inspect b) ''total_instructions'' = Some (VInt (total_instructions (disasm b)))
       \<and> 0 \<le> c \<and> c \<le> total_instructions (disasm b) \<and> 0 \<le> x \<and> x \<le> 100"
    if "(n, r) \<in> set INSPECT_ARRAY" for n r
    using inspect_lookup [OF that, of b] tot
      pct_bounds [OF count_instructions_nonneg count_le_total, of "disasm b" r]
      count_instructions_nonneg [of "disasm b" r] count_le_total [of "disasm b" r]
    by simp
  then show ?thesis
    using count_instructions_nonneg [of d p] count_le_total [of d p] by auto
qed

theorem count_at_most_total_witness:
  "(''asimddp'', seqs [C Ws, alts [Str ''sdot'', Str ''udot'']]) \<in> set INSPECT_ARRAY
   \<and> (\<exists>c x. map_of (inspect sdot_binary) ''asimddp_instructions'' = Some (VInt c)
     \<and> map_of (inspect sdot_binary) ''asimddp_instructions_percentage'' = Some (VFloat x)
     \<and> 0 \<le> c \<and> c \<le> total_instructions (disasm sdot_binary) \<and> 0 \<le> x \<and> x \<le> 100)"
proof -
  have mem: "(''asimddp'', seqs [C Ws, alts [Str ''sdot'', Str ''udot'']]) \<in> set INSPECT_ARRAY"
    by (simp add: INSPECT_ARRAY_def)
  have "\<forall>(n, r) \<in> set INSPECT_ARRAY. \<exists>c x.
         map_of (inspect sdot_binary) (n @ ''_instructions'') = Some (VInt c)
       \<and> map_of (inspect sdot_binary) (n @ ''_instructions_percentage'') = Some (VFloat x)
       \<and> map_of (inspect sdot_binary) ''total_instructions''
           = Some (VInt (total_instructions (disasm sdot_binary)))
       \<and> 0 \<le> c \<and> c \<le> total_instructions (disasm sdot_binary) \<and> 0 \<le> x \<and> x \<le> 100"
    using count_at_most_total [of "disasm sdot_binary" "C Dot" sdot_binary] by blast
  from bspec [OF this mem] obtain c x where
    "map_of (inspect sdot_binary) (''asimddp'' @ ''_instructions'') = Some (VInt c)"
    "map_of (inspect sdot_binary) (''asimddp'' @ ''_instructions_percentage'') = Some (VFloat x)"
    "0 \<le> c" "c \<le> total_instructions (disasm sdot_binary)" "0 \<le> x" "x \<le> 100"
    by auto
  then have "map_of (inspect sdot_binary) ''asimddp_instructions'' = Some (VInt c)
     \<and> map_of (inspect sdot_binary) ''asimddp_instructions_percentage'' = Some (VFloat x)
     \<and> 0 \<le> c \<and> c \<le> total_instructions (disasm sdot_binary) \<and> 0 \<le> x \<and> x \<le> 100"
    by simp
  then show ?thesis using mem by blast
qed

text \<open>
  C5. For every binary, the detected and the undetected categories are disjoint and
  together are the categories of the registry; the detected ones are those with a
  positive count, the undetected ones the others. The report stores both lists,
  joined by semicolons (or \<open>none\<close>), under \<open>detected_extensions\<close> and
  \<open>undetected_extensions\<close>, and the names read back from these two fields are the
  two lists, disjoint and together the registry. The report has the same keys for every
  input: the fixed keys, then a count key and a percentage key for each category of the
  registry; an unmatched category is present with count 0 and percentage 0.0.
\<close>

theorem report_partition_and_keys:
  "set (detected (classify (disasm b))) \<inter> set (undetected (classify (disasm b))) = {}
   \<and> set (detected (classify (disasm b))) \<union> set (undetected (classify (disasm b)))
       = fst ` set INSPECT_ARRAY
   \<and> detected (classify (disasm b))
       = map fst (filter (\<lambda>(n, p). count_instructions (disasm b) p > 0) INSPECT_ARRAY)
   \<and> undetected (classify (disasm b))
       = map fst (filter (\<lambda>(n, p). \<not> count_instructions (disasm b) p > 0) INSPECT_ARRAY)
   \<and> (\<exists>ds us. map_of (inspect b) ''detected_extensions'' = Some (VStr ds)
         \<and> map_of (inspect b) ''undetected_extensions'' = Some (VStr us)
         \<and> ds = (if detected (classify (disasm b)) \<noteq> []
                  then join '';'' (detected (classify (disasm b))) else ''none'')
         \<and> us = (if undetected (classify (disasm b)) \<noteq> []
                  then join '';'' (undetected (classify (disasm b))) else ''none'')
         \<and> listed ds = detected (classify (disasm b))
         \<and> listed us = undetected (classify (disasm b))
         \<and> set (listed ds) \<inter> set (listed us) = {}
         \<and> set (listed ds) \<union> set (listed us) = fst ` set INSPECT_ARRAY)
   \<and> map fst (inspect b) = fixed_keys @ concat (map ext_keys (map fst INSPECT_ARRAY))
   \<and> map fst (inspect b) = map fst (inspect b')
   \<and> (\<forall>(n, p) \<in> set INSPECT_ARRAY. count_instructions (disasm b) p = 0 \<longrightarrow>
         map_of (inspect b) (n @ ''_instructions'') = Some (VInt 0)
       \<and> map_of (inspect b) (n @ ''_instructions_percentage'') = Some (VFloat 0))"
proof -
  let ?P = "\<lambda>(n, p). count_instructions (disasm b) p > 0"
  let ?d = "detected (classify (disasm b))"
  let ?u = "undetected (classify (disasm b))"
  have u: "?u = map fst (filter (\<lambda>x. \<not> ?P x) INSPECT_ARRAY)"
    by (simp add: classify_eq case_prod_unfold)
  have u': "?u = map fst (filter (\<lambda>(n, p). \<not> count_instructions (disasm b) p > 0) INSPECT_ARRAY)"
    by (simp add: classify_eq)
  have d: "?d = map fst (filter ?P INSPECT_ARRAY)"
    by (simp add: classify_eq)
  have 1: "set ?d \<inter> set ?u = {}"
    unfolding u d by (rule filter_split_disjoint [OF names_distinct])
  have 2: "set ?d \<union> set ?u = fst ` set INSPECT_ARRAY"
    unfolding u d by (rule filter_split_union)
  have ld: "listed (if ?d \<noteq> [] then join '';'' ?d else ''none'') = ?d"
    using 2 by (intro listed_join) blast
  have lu: "listed (if ?u \<noteq> [] then join '';'' ?u else ''none'') = ?u"
    using 2 by (intro listed_join) blast
  have 3: "\<exists>ds us. map_of (inspect b) ''detected_extensions'' = Some (VStr ds)
         \<and> map_of (inspect b) ''undetected_extensions'' = Some (VStr us)
         \<and> ds = (if ?d \<noteq> [] then join '';'' ?d else ''none'')
         \<and> us = (if ?u \<noteq> [] then join '';'' ?u else ''none'')
         \<and> listed ds = ?d \<and> listed us = ?u
         \<and> set (listed ds) \<inter> set (listed us) = {}
         \<and> set (listed ds) \<union> set (listed us) = fst ` set INSPECT_ARRAY"
    using inspect_fixed_lookup [of b] ld lu 1 2 by (simp del: join.simps)
  have k: "map fst (inspect c) = fixed_keys @ concat (map ext_keys (map fst INSPECT_ARRAY))" for c
    by (simp add: inspect_eq keys_fixed_part keys_concat_ext)
  have 4: "map_of (inspect b) (n @ ''_instructions'') = Some (VInt 0)
       \<and> map_of (inspect b) (n @ ''_instructions_percentage'') = Some (VFloat 0)"
    if "(n, p) \<in> set INSPECT_ARRAY" "count_instructions (disasm b) p = 0" for n p
    using inspect_lookup [OF that(1), of b] that(2) by (simp add: pct_def)
  have 5: "\<forall>(n, p) \<in> set INSPECT_ARRAY. count_instructions (disasm b) p = 0 \<longrightarrow>
         map_of (inspect b) (n @ ''_instructions'') = Some (VInt 0)
       \<and> map_of (inspect b) (n @ ''_instructions_percentage'') = Some (VFloat 0)"
    using 4 by blast
  show ?thesis
    by (intro conjI 1 2 d u' 3 k 5) (simp add: k [of b] k [of b'])
qed

theorem report_partition_and_keys_witness:
  "(''sve'', seqs [C Ws, Str ''z'', Plus digit, Str ''.'']) \<in> set INSPECT_ARRAY
   \<and> count_instructions (disasm sdot_binary) (seqs [C Ws, Str ''z'', Plus digit, Str ''.'']) = 0
   \<and> map_of (inspect sdot_binary) ''sve_instructions'' = Some (VInt 0)
   \<and> map_of (inspect sdot_binary) ''sve_instructions_percentage'' = Some (VFloat 0)
   \<and> map_of (inspect sdot_binary) ''detected_extensions'' = Some (VStr ''asimddp'')
   \<and> map_of (inspect sdot_binary) ''undetected_extensions''
       = Some (VStr ''asimd;asimdhp;asimdfhm;asimdrdm;i8mm;bf16;bf16fml;sve;sve2;svei8mm;svebf16;sveaes;svepmull;svebitperm;svesha3;svesm4;fphp;fcma;frint;aes;pmull;sha1;sha2;sha3;sha512;sm3;sm4;atomics;dcpop;dcpodp;uscat;lrcpc;ilrcpc;dgh;sb;wfxt;paca;pacg;bti;flagm;flagm2;jscvt;crc32;dit;cpuid;evtstrm'')
   \<and> listed ''asimddp'' = [''asimddp'']"
proof -
  let ?r = "seqs [C Ws, Str ''z'', Plus digit, Str ''.'']"
  have mem: "(''sve'', ?r) \<in> set INSPECT_ARRAY"
    by (simp add: INSPECT_ARRAY_def)
  have z: "count_instructions (disasm sdot_binary) ?r = 0"
    by (simp add: sdot_binary_def) code_simp
  note t = report_partition_and_keys [of sdot_binary sdot_binary]
  from t have "\<forall>(n, p) \<in> set INSPECT_ARRAY. count_instructions (disasm sdot_binary) p = 0 \<longrightarrow>
         map_of (inspect sdot_binary) (n @ ''_instructions'') = Some (VInt 0)
       \<and> map_of (inspect sdot_binary) (n @ ''_instructions_percentage'') = Some (VFloat 0)"
    by blast
  from bspec [OF this mem] z have s:
    "map_of (inspect sdot_binary) ''sve_instructions'' = Some (VInt 0)"
    "map_of (inspect sdot_binary) ''sve_instructions_percentage'' = Some (VFloat 0)"
    by simp_all
  have dl: "map fst (filter (\<lambda>(n, p). count_instructions ''  401000: sdot v0.4s, v1.16b, v2.16b'' p > 0)
      INSPECT_ARRAY) = [''asimddp'']"
    by code_simp
  have ul: "join '';'' (map fst (filter (\<lambda>(n, p).
      \<not> count_instructions ''  401000: sdot v0.4s, v1.16b, v2.16b'' p > 0) INSPECT_ARRAY))
      = ''asimd;asimdhp;asimdfhm;asimdrdm;i8mm;bf16;bf16fml;sve;sve2;svei8mm;svebf16;sveaes;svepmull;svebitperm;svesha3;svesm4;fphp;fcma;frint;aes;pmull;sha1;sha2;sha3;sha512;sm3;sm4;atomics;dcpop;dcpodp;uscat;lrcpc;ilrcpc;dgh;sb;wfxt;paca;pacg;bti;flagm;flagm2;jscvt;crc32;dit;cpuid;evtstrm''"
    by code_simp
  have dd: "detected (classify (disasm sdot_binary)) = [''asimddp'']"
    using t dl by (simp add: sdot_binary_def)
  have uu: "join '';'' (undetected (classify (disasm sdot_binary))) = ''asimd;asimdhp;asimdfhm;asimdrdm;i8mm;bf16;bf16fml;sve;sve2;svei8mm;svebf16;sveaes;svepmull;svebitperm;svesha3;svesm4;fphp;fcma;frint;aes;pmull;sha1;sha2;sha3;sha512;sm3;sm4;atomics;dcpop;dcpodp;uscat;lrcpc;ilrcpc;dgh;sb;wfxt;paca;pacg;bti;flagm;flagm2;jscvt;crc32;dit;cpuid;evtstrm''"
    using t ul by (simp add: sdot_binary_def)
  have un: "undetected (classify (disasm sdot_binary)) \<noteq> []"
    using uu by auto
  from t obtain ds us where
    a: "map_of (inspect sdot_binary) ''detected_extensions'' = Some (VStr ds)"
       "map_of (inspect sdot_binary) ''undetected_extensions'' = Some (VStr us)"
    and b: "ds = (if detected (classify (disasm sdot_binary)) \<noteq> []
                  then join '';'' (detected (classify (disasm sdot_binary))) else ''none'')"
       "us = (if undetected (classify (disasm sdot_binary)) \<noteq> []
                  then join '';'' (undetected (classify (disasm sdot_binary))) else ''none'')"
    and c: "listed ds = detected (classify (disasm sdot_binary))"
    by blast
  have ds: "ds = ''asimddp''" using b(1) dd by simp
  have us: "us = ''asimd;asimdhp;asimdfhm;asimdrdm;i8mm;bf16;bf16fml;sve;sve2;svei8mm;svebf16;sveaes;svepmull;svebitperm;svesha3;svesm4;fphp;fcma;frint;aes;pmull;sha1;sha2;sha3;sha512;sm3;sm4;atomics;dcpop;dcpodp;uscat;lrcpc;ilrcpc;dgh;sb;wfxt;paca;pacg;bti;flagm;flagm2;jscvt;crc32;dit;cpuid;evtstrm''" using b(2) un uu by simp
  show ?thesis using mem z s a c ds us dd by simp
qed

text \<open>
  C9. The categories \<open>sha3\<close> and \<open>svesha3\<close> have the same rule, hence the same
  count on every instruction stream and the same entry in every report. Every line
  counted for \<open>sha512\<close> is counted for \<open>sha2\<close>, so the \<open>sha512\<close> count is at
  most the \<open>sha2\<close> count. The counts overlap: on the stream made of the one line
  \<open>  0: sha512h q0, q1, v2.2d\<close> the two counts add up to more than the total.
\<close>

theorem sha_rules_overlap:
  assumes "map_of INSPECT_ARRAY ''sha3'' = Some r3"
    and "map_of INSPECT_ARRAY ''svesha3'' = Some r3'"
    and "map_of INSPECT_ARRAY ''sha512'' = Some r512"
    and "map_of INSPECT_ARRAY ''sha2'' = Some r2"
  shows "r3 = r3'
    \<and> count_instructions d r3 = count_instructions d r3'
    \<and> map_of (inspect b) ''sha3_instructions'' = map_of (inspect b) ''svesha3_instructions''
    \<and> (counted r512 line \<longrightarrow> counted r2 line)
    \<and> count_instructions d r512 \<le> count_instructions d r2
    \<and> count_instructions ''  0: sha512h q0, q1, v2.2d'' r512
        + count_instructions ''  0: sha512h q0, q1, v2.2d'' r2
        > total_instructions ''  0: sha512h q0, q1, v2.2d''"
proof -
  let ?x = "alts [Str ''rax1'', Str ''bcax'', Str ''eor3'', Str ''xar'']"
  have r3: "r3 = seqs [C Ws, ?x]" and r3': "r3' = seqs [C Ws, ?x]"
    and r512: "r512 = seqs [C Ws, Seq (Str ''sha512'') (C hsu)]"
    and r2: "r2 = seqs [C Ws, alts [Seq (Str ''sha256'') (C hsu), Seq (Str ''sha512'') (C hsu)]]"
    using assms by (simp_all add: INSPECT_ARRAY_def)
  have eq: "r3 = r3'" using r3 r3' by simp
  have m3: "(''sha3'', r3) \<in> set INSPECT_ARRAY" "(''svesha3'', r3') \<in> set INSPECT_ARRAY"
    using assms(1,2) by (auto dest: map_of_SomeD)
  have out: "map_of (inspect b) ''sha3_instructions'' = map_of (inspect b) ''svesha3_instructions''"
    using inspect_lookup(1) [OF m3(1), of b] inspect_lookup(1) [OF m3(2), of b] eq by simp
  have sub: "re_search r2 l" if "re_search r512 l" for l
  proof -
    from that obtain pre rest where l: "l = pre @ rest" and rm: "re_match r512 rest"
      unfolding re_search_iff by blast
    from rm have "re_match r2 rest"
      unfolding r512 r2 re_match_def seqs.simps alts.simps by (rule m_Seq_Alt2)
    with l show ?thesis unfolding re_search_iff by blast
  qed
  then have c: "counted r512 l \<Longrightarrow> counted r2 l" for l by (simp add: counted_def)
  have le: "count_instructions d r512 \<le> count_instructions d r2"
    using length_filter_mono [of "counted r512" "counted r2" "split_nl d"] c
    by (simp add: count_instructions_eq)
  have ex: "count_instructions ''  0: sha512h q0, q1, v2.2d'' r512
        + count_instructions ''  0: sha512h q0, q1, v2.2d'' r2
        > total_instructions ''  0: sha512h q0, q1, v2.2d''"
    unfolding r512 r2 by code_simp
  show ?thesis using eq out c le ex by simp
qed

theorem sha_rules_overlap_witness:
  "map_of INSPECT_ARRAY ''sha3'' = Some (seqs [C Ws, alts [Str ''rax1'', Str ''bcax'', Str ''eor3'', Str ''xar'']])
   \<and> map_of INSPECT_ARRAY ''svesha3'' = Some (seqs [C Ws, alts [Str ''rax1'', Str ''bcax'', Str ''eor3'', Str ''xar'']])
   \<and> map_of INSPECT_ARRAY ''sha512'' = Some (seqs [C Ws, Seq (Str ''sha512'') (C hsu)])
   \<and> map_of INSPECT_ARRAY ''sha2'' = Some (seqs [C Ws, alts [Seq (Str ''sha256'') (C hsu), Seq (Str ''sha512'') (C hsu)]])
   \<and> counted (seqs [C Ws, Seq (Str ''sha512'') (C hsu)]) ''  0: sha512h q0, q1, v2.2d''
   \<and> counted (seqs [C Ws, alts [Seq (Str ''sha256'') (C hsu), Seq (Str ''sha512'') (C hsu)]])
        ''  0: sha512h q0, q1, v2.2d''
   \<and> count_instructions ''  0: sha512h q0, q1, v2.2d'' (seqs [C Ws, Seq (Str ''sha512'') (C hsu)]) = 1
   \<and> count_instructions ''  0: sha512h q0, q1, v2.2d''
        (seqs [C Ws, alts [Seq (Str ''sha256'') (C hsu), Seq (Str ''sha512'') (C hsu)]]) = 1
   \<and> total_instructions ''  0: sha512h q0, q1, v2.2d'' = 1"
proof -
  have a: "map_of INSPECT_ARRAY ''sha3'' = Some (seqs [C Ws, alts [Str ''rax1'', Str ''bcax'', Str ''eor3'', Str ''xar'']])"
    and b: "map_of INSPECT_ARRAY ''svesha3'' = Some (seqs [C Ws, alts [Str ''rax1'', Str ''bcax'', Str ''eor3'', Str ''xar'']])"
    and c: "map_of INSPECT_ARRAY ''sha512'' = Some (seqs [C Ws, Seq (Str ''sha512'') (C hsu)])"
    and d: "map_of INSPECT_ARRAY ''sha2'' = Some (seqs [C Ws, alts [Seq (Str ''sha256'') (C hsu), Seq (Str ''sha512'') (C hsu)]])"
    by (simp_all add: INSPECT_ARRAY_def)
  have e: "counted (seqs [C Ws, Seq (Str ''sha512'') (C hsu)]) ''  0: sha512h q0, q1, v2.2d''"
    by code_simp
  have f: "count_instructions ''  0: sha512h q0, q1, v2.2d'' (seqs [C Ws, Seq (Str ''sha512'') (C hsu)]) = 1"
    "count_instructions ''  0: sha512h q0, q1, v2.2d''
        (seqs [C Ws, alts [Seq (Str ''sha256'') (C hsu), Seq (Str ''sha512'') (C hsu)]]) = 1"
    "total_instructions ''  0: sha512h q0, q1, v2.2d'' = 1"
    by code_simp+
  show ?thesis
    using a b c d e f sha_rules_overlap [OF a b c d, of "[]" sdot_binary "''  0: sha512h q0, q1, v2.2d''"]
    by simp
qed

text \<open>
  C2. The claim: a rule's outcome depends only on the mnemonic and operand part of the
  line, so two instruction lines that differ only in the address are matched alike. The
  code searches the rule in the whole line, and the white space every rule starts with
  also stands before the address. The lines \<open>   fadd0: ret\<close> and
  \<open>   40100: ret\<close> differ in the address only, and \<open>asimd\<close> counts the first and
  not the second; likewise \<open>fcma\<close> for the addresses \<open>fcadd0\<close> and \<open>401000\<close>.
\<close>

theorem address_field_false_positive:
  "map_option (count_instructions ''   fadd0: ret'') (map_of INSPECT_ARRAY ''asimd'') = Some 1
   \<and> map_option (count_instructions ''   40100: ret'') (map_of INSPECT_ARRAY ''asimd'') = Some 0
   \<and> map_option (count_instructions ''  fcadd0: ret'') (map_of INSPECT_ARRAY ''fcma'') = Some 1
   \<and> map_option (count_instructions ''  401000: ret'') (map_of INSPECT_ARRAY ''fcma'') = Some 0"
  by code_simp

section \<open>Claims about the auxv decoder\<close>




text \<open>
  C3, as the claim states it, fails: \<open>struct.unpack\<close> reads the words in the byte order
  of the host, so a little-endian encoding of the pair (1, 2) decodes to other values on
  a big-endian host.
\<close>

theorem little_endian_roundtrip_counterexample:
  "parse_auxv be_host (pack_auxv Little II [(1, 2)] @ pack_pair Little II (0, 0)) (Some ''i386'')
   = Inr [(16777216, 33554432)]
   \<and> parse_auxv be_host (pack_auxv Little II [(1, 2)] @ pack_pair Little II (0, 0)) (Some ''i386'')
   \<noteq> Inr [(1, 2)]"
  by code_simp

text \<open>
  C3, amended. For a word size of 8 or 4 (the field size of the format) and every list of
  (tag, value) pairs with nonzero tags and with tags and values within the word size,
  encoding the pairs as consecutive words in the byte order of the decoding host
  (little-endian on a little-endian host), followed by a pair with tag 0 and by any
  further bytes, decodes to exactly the original pairs in their order, without the
  terminator.
\<close>

theorem auxv_roundtrip:
  assumes "word_size h arch = field_size f"
    and "\<forall>(t, v) \<in> set pairs.
           t \<noteq> 0 \<and> 0 \<le> t \<and> t < 256 ^ field_size f \<and> 0 \<le> v \<and> v < 256 ^ field_size f"
  shows "parse_auxv h (pack_auxv (byteorder h) f pairs @ pack_pair (byteorder h) f (0, v0) @ rest)
           arch = Inr pairs"
proof -
  let ?data = "pack_auxv (byteorder h) f pairs @ pack_pair (byteorder h) f (0, v0) @ rest"
  define step where "step = 2 * field_size f"
  have s: "0 < step" by (cases f) (simp_all add: step_def)
  obtain n where n: "range_step (length ?data) step = map (\<lambda>j. 0 + j * step) [0..<n]"
    and le: "length ?data \<le> n * step"
    using range_step_ge [OF s] by blast
  have "length pairs * step + step \<le> length ?data"
    by (simp add: length_pack_auxv length_pack_pair step_def)
  then have "Suc (length pairs) * step \<le> n * step" using le by simp
  then have "Suc (length pairs) \<le> n" unfolding mult_le_cancel2 using s by blast
  then have lt: "length pairs < n" by simp
  have ok: "t \<noteq> 0 \<and> 0 \<le> t \<and> t < 256 ^ field_size f \<and> 0 \<le> v \<and> v < 256 ^ field_size f"
    if "(t, v) \<in> set pairs" for t v using assms(2) that by blast
  have "auxv_loop (byteorder h) f step ([] @ ?data) (map (\<lambda>j. 0 + j * step) [0..<n]) []
      = Inr ([] @ pairs)"
    by (rule loop_roundtrip [OF step_def ok _ lt]) simp_all
  then have loop: "auxv_loop (byteorder h) f step ?data (range_step (length ?data) step) [] = Inr pairs"
    unfolding n by simp
  show ?thesis
  proof (cases f)
    case QQ
    then show ?thesis using assms(1) loop by (simp add: parse_auxv_def step_def)
  next
    case II
    then show ?thesis using assms(1) loop by (simp add: parse_auxv_def step_def)
  qed
qed

theorem auxv_roundtrip_witness:
  "word_size le_host (Some ''i386'') = field_size II
   \<and> byteorder le_host = Little
   \<and> (4096 :: int) < 256 ^ field_size II \<and> (4194314 :: int) < 256 ^ field_size II
   \<and> parse_auxv le_host
        (pack_auxv Little II [(6, 4096), (17, 4194314)] @ pack_pair Little II (0, 0) @ [])
        (Some ''i386'') = Inr [(6, 4096), (17, 4194314)]
   \<and> pack_auxv Little II [(6, 4096), (17, 4194314)] @ pack_pair Little II (0, 0) @ []
      = [6, 0, 0, 0, 0, 16, 0, 0, 17, 0, 0, 0, 10, 0, 64, 0, 0, 0, 0, 0, 0, 0, 0, 0]"
proof -
  have w: "word_size le_host (Some ''i386'') = field_size II"
    by (simp add: word_size_def)
  have b: "byteorder le_host = Little" by (simp add: le_host_def)
  have p: "\<forall>(t, v) \<in> set [(6 :: int, 4096 :: int), (17, 4194314)].
           t \<noteq> 0 \<and> 0 \<le> t \<and> t < 256 ^ field_size II \<and> 0 \<le> v \<and> v < 256 ^ field_size II"
    by simp
  have e: "pack_auxv Little II [(6, 4096), (17, 4194314)] @ pack_pair Little II (0, 0) @ []
      = [6, 0, 0, 0, 0, 16, 0, 0, 17, 0, 0, 0, 10, 0, 64, 0, 0, 0, 0, 0, 0, 0, 0, 0]"
    by code_simp
  have r: "parse_auxv le_host
        (pack_auxv (byteorder le_host) II [(6, 4096), (17, 4194314)]
           @ pack_pair (byteorder le_host) II (0, 0) @ [])
        (Some ''i386'') = Inr [(6, 4096), (17, 4194314)]"
    by (rule auxv_roundtrip [OF w p])
  have n: "(4096 :: int) < 256 ^ field_size II" "(4194314 :: int) < 256 ^ field_size II" by simp_all
  show ?thesis using w b n e r unfolding b by blast
qed

text \<open>
  C4. For a word size of 8 or 4, a buffer of whole (tag, value) strides followed by
  fewer bytes than one stride decodes to the same result as the buffer without those
  trailing bytes, and the result is a list of entries, never an error.
\<close>

theorem truncated_tail_discarded:
  assumes "word_size h arch = 8 \<or> word_size h arch = 4"
    and "2 * word_size h arch dvd length body"
    and "length tail < 2 * word_size h arch"
  shows "parse_auxv h (body @ tail) arch = parse_auxv h body arch
       \<and> (\<exists>es. parse_auxv h (body @ tail) arch = Inr es)"
proof -
  have "parse_auxv h (body @ tail) arch = parse_auxv h body arch"
    using assms loop_truncated_tail [of 16 body tail "byteorder h" QQ]
      loop_truncated_tail [of 8 body tail "byteorder h" II]
    by (auto simp: parse_auxv_def Let_def)
  then show ?thesis using parse_auxv_Inr [OF assms(1)] by simp
qed

theorem truncated_tail_discarded_witness:
  "word_size le_host (Some ''i386'') = 4
   \<and> length [6, 0, 0, 0, 0, 16, 0, 0 :: byte] = 8 \<and> length [17, 0, 0 :: byte] = 3
   \<and> parse_auxv le_host ([6, 0, 0, 0, 0, 16, 0, 0] @ [17, 0, 0]) (Some ''i386'') = Inr [(6, 4096)]
   \<and> parse_auxv le_host [6, 0, 0, 0, 0, 16, 0, 0] (Some ''i386'') = Inr [(6, 4096)]"
proof -
  have w: "word_size le_host (Some ''i386'') = 4"
    by (simp add: word_size_def)
  have w': "word_size le_host (Some ''i386'') = 8 \<or> word_size le_host (Some ''i386'') = 4"
    using w by simp
  have len: "length [6, 0, 0, 0, 0, 16, 0, 0 :: byte] = 8" by simp
  have d: "2 * word_size le_host (Some ''i386'') dvd length [6, 0, 0, 0, 0, 16, 0, 0 :: byte]"
    unfolding w len by simp
  have l: "length [17, 0, 0 :: byte] < 2 * word_size le_host (Some ''i386'')"
    unfolding w by simp
  have b: "parse_auxv le_host [6, 0, 0, 0, 0, 16, 0, 0] (Some ''i386'') = Inr [(6, 4096)]"
    by code_simp
  have "parse_auxv le_host ([6, 0, 0, 0, 0, 16, 0, 0] @ [17, 0, 0]) (Some ''i386'')
      = parse_auxv le_host [6, 0, 0, 0, 0, 16, 0, 0] (Some ''i386'')"
    using truncated_tail_discarded [OF w' d l] by (rule conjunct1)
  then show ?thesis using w b by simp
qed

section \<open>Claims about the capability expander\<close>

text \<open>
  C6, as the claim states it, fails: \<open>bits_to_names\<close> returns the names in the order
  of the table. For the mask with exactly the bits 1, 3 and 22 set and the AArch64
  primary table it returns \<open>ASIMD\<close>, \<open>AES\<close>, \<open>SVE\<close>, which is not sorted.
\<close>

theorem bits_to_names_counterexample:
  "bits_to_names 4194314 AARCH64_HWCAP = [''ASIMD'', ''AES'', ''SVE'']
   \<and> bits_to_names 4194314 AARCH64_HWCAP \<noteq> [''AES'', ''ASIMD'', ''SVE'']"
  by code_simp

text \<open>
  C6, amended. \<open>bits_to_names\<close> is a function of one bitmask and one table: it returns
  exactly the names whose bit is set in the mask, in the order of the table. The names
  are sorted where \<open>decode_hwcap\<close> renders them: for every architecture and every pair
  of masks, each line it renders lists the selected names of its table in increasing
  order (for a table of distinct names, sorting what \<open>bits_to_names\<close> returns gives the
  sorted list of the selected set). On the AArch64 primary table the mask with exactly
  the bits 1, 3 and 22 set gives, once sorted, \<open>AES\<close>, \<open>ASIMD\<close>, \<open>SVE\<close>, and
  \<open>decode_hwcap\<close> renders the line \<open>HWCAP:  AES, ASIMD, SVE\<close>.
\<close>

theorem bits_to_names_then_sorted:
  "set (bits_to_names bits table) = {name. \<exists>b. (b, name) \<in> set table \<and> bit bits b}
   \<and> subseq (bits_to_names bits table) (map snd table)
   \<and> sorted (sorted_names (bits_to_names bits table))
   \<and> set (sorted_names (bits_to_names bits table)) = set (bits_to_names bits table)
   \<and> length (sorted_names (bits_to_names bits table)) = length (bits_to_names bits table)
   \<and> (distinct (map snd table) \<longrightarrow>
        sorted_names (bits_to_names bits table) = sorted_list_of_set (named_bits bits table))
   \<and> decode_hwcap ''aarch64'' h1 h2
        = hwcap_line ''HWCAP:  '' (named_bits h1 AARCH64_HWCAP)
          @ hwcap_line ''HWCAP2: '' (named_bits h2 AARCH64_HWCAP2)
   \<and> (a = ''x86_64'' \<or> a = ''i386'' \<or> a = ''i686'' \<longrightarrow>
        decode_hwcap a h1 h2
        = hwcap_line ''HWCAP:  '' (named_bits h1 X86_HWCAP)
          @ (if h2 \<noteq> 0 then [''HWCAP2: 0x'' @ hex_int h2 @ '' (rarely used on x86)''] else []))
   \<and> (a \<noteq> ''aarch64'' \<and> a \<noteq> ''x86_64'' \<and> a \<noteq> ''i386'' \<and> a \<noteq> ''i686'' \<longrightarrow>
        decode_hwcap a h1 h2 = [])
   \<and> bit (4194314 :: int) 1 \<and> bit (4194314 :: int) 3 \<and> bit (4194314 :: int) 22
   \<and> 4194314 = (2 :: int) ^ 1 + 2 ^ 3 + 2 ^ 22
   \<and> sorted_names (bits_to_names 4194314 AARCH64_HWCAP) = [''AES'', ''ASIMD'', ''SVE'']
   \<and> decode_hwcap ''aarch64'' 4194314 0 = [''HWCAP:  AES, ASIMD, SVE'']
   \<and> decode_hwcap ''aarch64'' 0 130 = [''HWCAP2: FLAGM2, SVE2'']
   \<and> decode_hwcap ''aarch64'' 3 3 = [''HWCAP:  ASIMD, FP'', ''HWCAP2: DCPODP, SVE2'']
   \<and> decode_hwcap ''x86_64'' 6 0 = [''HWCAP:  DE, VME'']
   \<and> decode_hwcap ''i686'' 3 255 = [''HWCAP:  FPU, VME'', ''HWCAP2: 0xff (rarely used on x86)'']"
proof -
  have e: "sorted_names (bits_to_names 4194314 AARCH64_HWCAP) = [''AES'', ''ASIMD'', ''SVE'']"
    by code_simp
  have d: "decode_hwcap ''aarch64'' 4194314 0 = [''HWCAP:  AES, ASIMD, SVE'']"
    "decode_hwcap ''aarch64'' 0 130 = [''HWCAP2: FLAGM2, SVE2'']"
    "decode_hwcap ''aarch64'' 3 3 = [''HWCAP:  ASIMD, FP'', ''HWCAP2: DCPODP, SVE2'']"
    "decode_hwcap ''x86_64'' 6 0 = [''HWCAP:  DE, VME'']"
    "decode_hwcap ''i686'' 3 255 = [''HWCAP:  FPU, VME'', ''HWCAP2: 0xff (rarely used on x86)'']"
    by code_simp+
  have b: "bit (4194314 :: int) 1" "bit (4194314 :: int) 3" "bit (4194314 :: int) 22"
    by (simp_all add: bit_iff_odd)
  have n: "4194314 = (2 :: int) ^ 1 + 2 ^ 3 + 2 ^ 22" by simp
  have s: "sorted (sorted_names (bits_to_names bits table))"
    "set (sorted_names (bits_to_names bits table)) = set (bits_to_names bits table)"
    "length (sorted_names (bits_to_names bits table)) = length (bits_to_names bits table)"
    by (simp_all add: sorted_names_def)
  have g: "distinct (map snd table) \<longrightarrow>
        sorted_names (bits_to_names bits table) = sorted_list_of_set (named_bits bits table)"
    using sorted_names_set by blast
  have x: "a = ''x86_64'' \<or> a = ''i386'' \<or> a = ''i686'' \<longrightarrow>
        decode_hwcap a h1 h2
        = hwcap_line ''HWCAP:  '' (named_bits h1 X86_HWCAP)
          @ (if h2 \<noteq> 0 then [''HWCAP2: 0x'' @ hex_int h2 @ '' (rarely used on x86)''] else [])"
    using decode_hwcap_x86 by blast
  have o: "a \<noteq> ''aarch64'' \<and> a \<noteq> ''x86_64'' \<and> a \<noteq> ''i386'' \<and> a \<noteq> ''i686'' \<longrightarrow>
        decode_hwcap a h1 h2 = []"
    using decode_hwcap_other by blast
  show ?thesis
    by (intro conjI set_bits_to_names subseq_bits_to_names s g decode_hwcap_aarch64 x o b n e d)
qed

theorem bits_to_names_then_sorted_witness:
  "distinct (map snd AARCH64_HWCAP)
   \<and> sorted_names (bits_to_names 4194314 AARCH64_HWCAP)
       = sorted_list_of_set (named_bits 4194314 AARCH64_HWCAP)
   \<and> sorted_list_of_set (named_bits 4194314 AARCH64_HWCAP) = [''AES'', ''ASIMD'', ''SVE'']
   \<and> decode_hwcap ''i386'' 6 0
       = hwcap_line ''HWCAP:  '' (named_bits 6 X86_HWCAP) @ []
   \<and> decode_hwcap ''i386'' 6 0 = [''HWCAP:  DE, VME'']
   \<and> decode_hwcap ''riscv64'' 6 1 = []"
proof -
  note t = bits_to_names_then_sorted [of 4194314 AARCH64_HWCAP 6 0 "''i386''"]
  note t' = bits_to_names_then_sorted [of 4194314 AARCH64_HWCAP 6 1 "''riscv64''"]
  have 1: "sorted_names (bits_to_names 4194314 AARCH64_HWCAP)
       = sorted_list_of_set (named_bits 4194314 AARCH64_HWCAP)"
    using t tables_distinct(1) by blast
  have e: "sorted_names (bits_to_names 4194314 AARCH64_HWCAP) = [''AES'', ''ASIMD'', ''SVE'']"
    using t by blast
  have 2: "sorted_list_of_set (named_bits 4194314 AARCH64_HWCAP) = [''AES'', ''ASIMD'', ''SVE'']"
    unfolding 1 [symmetric] by (rule e)
  have i: "''i386'' = ''x86_64'' \<or> ''i386'' = ''i386'' \<or> ''i386'' = ''i686''" by simp
  have "decode_hwcap ''i386'' 6 0 = hwcap_line ''HWCAP:  '' (named_bits 6 X86_HWCAP)
      @ (if (0 :: int) \<noteq> 0 then [''HWCAP2: 0x'' @ hex_int 0 @ '' (rarely used on x86)''] else [])"
    using t i by blast
  then have 3: "decode_hwcap ''i386'' 6 0 = hwcap_line ''HWCAP:  '' (named_bits 6 X86_HWCAP) @ []"
    by simp
  have 4: "decode_hwcap ''i386'' 6 0 = [''HWCAP:  DE, VME'']" by code_simp
  have r: "''riscv64'' \<noteq> ''aarch64'' \<and> ''riscv64'' \<noteq> ''x86_64'' \<and> ''riscv64'' \<noteq> ''i386''
      \<and> ''riscv64'' \<noteq> ''i686''" by simp
  have 5: "decode_hwcap ''riscv64'' 6 1 = []" using t' r by blast
  show ?thesis by (intro conjI tables_distinct(1) 1 2 3 4 5)
qed

end
